theory Spec2Isabelle
  imports Complex_Main "HOL-Library.AList" "HOL-Library.Char_ord" "HOL-Library.List_Lexorder"
begin

section \<open>Website Change Radar: value extraction and change ledger\<close>

text \<open>
  A shallow embedding of \<^verbatim>\<open>website_change_radar_discord.py\<close>.
  Python strings are modelled as \<^typ>\<open>string\<close>; a \<^typ>\<open>char\<close> stands for a code point
  below 256, so \<^const>\<open>length\<close> and \<^const>\<open>take\<close> count what Python's \<^verbatim>\<open>len\<close> and slicing count
  on such texts. On this range \<^verbatim>\<open>\s\<close>, \<^verbatim>\<open>\d\<close> and \<^verbatim>\<open>re.IGNORECASE\<close> have the finite tables
  written out below.
\<close>

subsection \<open>Exceptions\<close>

datatype py_error = KeyError string | TypeError | IndexError

subsection \<open>Regular expressions as the \<^verbatim>\<open>re\<close> module runs them\<close>

text \<open>
  The fragment of pattern syntax the source uses: character classes, concatenation,
  a greedy optional group \<^verbatim>\<open>(?:r)?\<close> and a greedy star over a character class.
  \<^verbatim>\<open>c+\<close> is \<^verbatim>\<open>cc*\<close> and \<^verbatim>\<open>c{2}\<close> is \<^verbatim>\<open>cc\<close>.
\<close>

datatype re = Eps | Cls "char \<Rightarrow> bool" | Seq re re | Opt re | Star "char \<Rightarrow> bool"

text \<open>The strings a pattern denotes: the specification side.\<close>

fun lang :: "re \<Rightarrow> string set" where
  "lang Eps = {[]}"
| "lang (Cls p) = {[c] | c. p c}"
| "lang (Seq a b) = {u @ v | u v. u \<in> lang a \<and> v \<in> lang b}"
| "lang (Opt a) = insert [] (lang a)"
| "lang (Star p) = {w. list_all p w}"

text \<open>
  The backtracking matcher: \<open>rests r s\<close> lists the remainders of \<open>s\<close> after every way
  of matching \<open>r\<close> at the start of \<open>s\<close>, in the order the engine tries them (greedy: the
  longest repetition first, the optional group present first). The engine commits to
  the first one.
\<close>

fun star_rests :: "(char \<Rightarrow> bool) \<Rightarrow> string \<Rightarrow> string list" where
  "star_rests p [] = [[]]"
| "star_rests p (c # cs) = (if p c then star_rests p cs else []) @ [c # cs]"

fun rests :: "re \<Rightarrow> string \<Rightarrow> string list" where
  "rests Eps s = [s]"
| "rests (Cls p) s = (case s of [] \<Rightarrow> [] | c # cs \<Rightarrow> if p c then [cs] else [])"
| "rests (Seq a b) s = concat (map (rests b) (rests a s))"
| "rests (Opt a) s = rests a s @ [s]"
| "rests (Star p) s = star_rests p s"

text \<open>
  \<open>match_at r g s\<close> matches the pattern \<^verbatim>\<open>r(g)\<close> at the start of \<open>s\<close> and returns
  \<^verbatim>\<open>(group(0), group(1))\<close>; a pattern without a group is \<open>match_at Eps g\<close>, whose two
  components coincide. \<open>ways r g s\<close> lists, in the engine's order, the text left after
  \<open>r\<close> paired with the text left after the group.
\<close>

definition ways :: "re \<Rightarrow> re \<Rightarrow> string \<Rightarrow> (string \<times> string) list" where
  "ways r g s = concat (map (\<lambda>u. map (\<lambda>t. (u, t)) (rests g u)) (rests r s))"

definition match_at :: "re \<Rightarrow> re \<Rightarrow> string \<Rightarrow> (string \<times> string) option" where
  "match_at r g s =
     (case ways r g s of
        [] \<Rightarrow> None
      | (u, t) # _ \<Rightarrow> Some (take (length s - length t) s, take (length u - length t) u))"

text \<open>
  \<^verbatim>\<open>pattern.search(text)\<close>: the first start position, from the left, at which the
  pattern matches; the end of the text is a start position too. The result is
  \<^verbatim>\<open>(m.start(), m.group(0), m.group(1))\<close>.
\<close>

fun search_from :: "re \<Rightarrow> re \<Rightarrow> nat \<Rightarrow> string \<Rightarrow> (nat \<times> string \<times> string) option" where
  "search_from r g i [] = (case match_at r g [] of None \<Rightarrow> None | Some m \<Rightarrow> Some (i, m))"
| "search_from r g i (c # cs) =
     (case match_at r g (c # cs) of None \<Rightarrow> search_from r g (Suc i) cs | Some m \<Rightarrow> Some (i, m))"

definition search :: "re \<Rightarrow> re \<Rightarrow> string \<Rightarrow> (nat \<times> string \<times> string) option" where
  "search r g text = search_from r g 0 text"

subsection \<open>Character classes\<close>

definition is_digit :: "char \<Rightarrow> bool" where
  "is_digit c = (c \<in> set ''0123456789'')"

definition is_digit_or_comma :: "char \<Rightarrow> bool" where
  "is_digit_or_comma c = (is_digit c \<or> c = CHR '','')"

text \<open>\<^verbatim>\<open>\s\<close> on code points below 256.\<close>

definition is_space :: "char \<Rightarrow> bool" where
  "is_space c = (c \<in> set [CHR 0x09, CHR 0x0A, CHR 0x0B, CHR 0x0C, CHR 0x0D,
                            CHR 0x1C, CHR 0x1D, CHR 0x1E, CHR 0x1F, CHR 0x20,
                            CHR 0x85, CHR 0xA0])"

text \<open>
  The class \<^verbatim>\<open>[...$]\<close> of \<^verbatim>\<open>PRICE_PATTERN\<close> as the source file spells it: the code points
  U+00C2, U+00A3 (the pound sign) and the dollar sign.
\<close>

definition is_currency :: "char \<Rightarrow> bool" where
  "is_currency c = (c \<in> set [CHR 0xC2, CHR 0xA3, CHR ''$''])"

definition ascii_lower :: "char \<Rightarrow> char" where
  "ascii_lower c =
     (case map_of (zip ''ABCDEFGHIJKLMNOPQRSTUVWXYZ'' ''abcdefghijklmnopqrstuvwxyz'') c of
        None \<Rightarrow> c | Some l \<Rightarrow> l)"

text \<open>
  A literal word: \<open>word f w\<close> accepts the texts that agree with \<open>w\<close> character by
  character after \<open>f\<close>. A plain literal compares the characters themselves; under
  \<^verbatim>\<open>re.IGNORECASE\<close> they are compared in lower case.
\<close>

fun word :: "(char \<Rightarrow> char) \<Rightarrow> string \<Rightarrow> re" where
  "word f [] = Eps"
| "word f (c # cs) = Seq (Cls (\<lambda>x. f x = f c)) (word f cs)"

definition lit :: "string \<Rightarrow> re" where
  "lit w = word (\<lambda>c. c) w"

definition lit_ci :: "string \<Rightarrow> re" where
  "lit_ci w = word ascii_lower w"

text \<open>\<^verbatim>\<open>c+\<close>\<close>

definition rep1 :: "(char \<Rightarrow> bool) \<Rightarrow> re" where
  "rep1 p = Seq (Cls p) (Star p)"

subsection \<open>The patterns of the source\<close>

text \<open>\<^verbatim>\<open>[0-9][0-9,]*(?:\.[0-9]{2})?\<close>, the capturing group of both price patterns.\<close>

definition DECIMALS :: re where
  "DECIMALS = Seq (lit ''.'') (Seq (Cls is_digit) (Cls is_digit))"

definition NUMBER :: re where
  "NUMBER = Seq (Cls is_digit) (Seq (Star is_digit_or_comma) (Opt DECIMALS))"

text \<open>\<^verbatim>\<open>PRICE_PATTERN\<close> is \<open>PRICE_PREFIX\<close> followed by the group \<open>NUMBER\<close>.\<close>

definition PRICE_PREFIX :: re where
  "PRICE_PREFIX = Seq (Cls is_currency) (Star is_space)"

definition PRICE_PATTERN :: re where
  "PRICE_PATTERN = Seq PRICE_PREFIX NUMBER"

text \<open>\<^verbatim>\<open>STOCK_PREV_CLOSE_PATTERN\<close> is \<open>STOCK_PREFIX\<close> followed by the group \<open>NUMBER\<close>.\<close>

definition STOCK_PREFIX :: re where
  "STOCK_PREFIX = Seq (lit_ci ''Previous'') (Seq (rep1 is_space)
                    (Seq (lit_ci ''close'') (rep1 is_space)))"

definition STOCK_PREV_CLOSE_PATTERN :: re where
  "STOCK_PREV_CLOSE_PATTERN = Seq STOCK_PREFIX NUMBER"

text \<open>\<^verbatim>\<open>Python\s+3\.\d+\.\d+\<close>\<close>

definition PYTHON_VERSION_PATTERN :: re where
  "PYTHON_VERSION_PATTERN = Seq (lit ''Python'') (Seq (rep1 is_space)
     (Seq (lit ''3.'') (Seq (rep1 is_digit) (Seq (lit ''.'') (rep1 is_digit)))))"

subsection \<open>What a match is: the specification side\<close>

text \<open>The pattern \<open>r\<close> matches some text starting at position \<open>k\<close> of \<open>text\<close>.\<close>

definition occurs_at :: "re \<Rightarrow> string \<Rightarrow> nat \<Rightarrow> bool" where
  "occurs_at r text k = (k \<le> length text \<and> (\<exists>m t. drop k text = m @ t \<and> m \<in> lang r))"

definition occurs :: "re \<Rightarrow> string \<Rightarrow> bool" where
  "occurs r text = (\<exists>k. occurs_at r text k)"

text \<open>
  \<open>text = before @ m @ after\<close> where \<open>m\<close> is the leftmost match of \<open>r\<close> in \<open>text\<close> and,
  at that position, the longest.
\<close>

definition first_match :: "re \<Rightarrow> string \<Rightarrow> string \<Rightarrow> string \<Rightarrow> string \<Rightarrow> bool" where
  "first_match r text before m after =
     (text = before @ m @ after \<and> m \<in> lang r
      \<and> (\<forall>k<length before. \<not> occurs_at r text k)
      \<and> (\<forall>m' after'. m @ after = m' @ after' \<and> m' \<in> lang r \<longrightarrow> length m' \<le> length m))"

subsection \<open>Hand-written scanners for the patterns\<close>

text \<open>
  What each pattern does, written as a direct left-to-right scan; the matcher above is
  proved to agree with them. \<open>alts r k s\<close> runs the continuation \<open>k\<close> on every remainder
  the matcher produces.
\<close>

definition alts :: "re \<Rightarrow> (string \<Rightarrow> 'a list) \<Rightarrow> string \<Rightarrow> 'a list" where
  "alts r k s = concat (map k (rests r s))"

fun strip :: "(char \<Rightarrow> char) \<Rightarrow> string \<Rightarrow> string \<Rightarrow> string option" where
  "strip f [] s = Some s"
| "strip f (c # cs) [] = None"
| "strip f (c # cs) (x # xs) = (if f x = f c then strip f cs xs else None)"

definition run1 :: "(char \<Rightarrow> bool) \<Rightarrow> string \<Rightarrow> string option" where
  "run1 p s = (case s of [] \<Rightarrow> None | c # cs \<Rightarrow> if p c then Some (dropWhile p cs) else None)"

definition scan_decimals :: "string \<Rightarrow> string" where
  "scan_decimals x =
     (case x of
        a # b # c # y \<Rightarrow> if a = CHR ''.'' \<and> is_digit b \<and> is_digit c then y else x
      | _ \<Rightarrow> x)"

definition scan_number :: "string \<Rightarrow> string option" where
  "scan_number s =
     (case s of
        [] \<Rightarrow> None
      | d # u \<Rightarrow> if is_digit d then Some (scan_decimals (dropWhile is_digit_or_comma u)) else None)"

definition scan_price_prefix :: "string \<Rightarrow> string option" where
  "scan_price_prefix s =
     (case s of [] \<Rightarrow> None | c # cs \<Rightarrow> if is_currency c then Some (dropWhile is_space cs) else None)"

definition scan_stock_prefix :: "string \<Rightarrow> string option" where
  "scan_stock_prefix s =
     Option.bind (strip ascii_lower ''Previous'' s) (\<lambda>s1.
     Option.bind (run1 is_space s1) (\<lambda>s2.
     Option.bind (strip ascii_lower ''close'' s2) (\<lambda>s3.
     run1 is_space s3)))"

definition scan_version_prefix :: "string \<Rightarrow> string option" where
  "scan_version_prefix s =
     Option.bind (strip (\<lambda>c. c) ''Python'' s) (\<lambda>s1.
     Option.bind (run1 is_space s1) (\<lambda>s2.
     Option.bind (strip (\<lambda>c. c) ''3.'' s2) (\<lambda>s3.
     Option.bind (run1 is_digit s3) (\<lambda>s4.
     strip (\<lambda>c. c) ''.'' s4))))"

definition scan_version :: "string \<Rightarrow> string option" where
  "scan_version s = Option.bind (scan_version_prefix s) (run1 is_digit)"

subsection \<open>Site configuration\<close>

record SiteConfig =
  site_id :: string
  url :: string
  description :: string
  css_selector :: "string option"
  normalize_whitespace :: bool
  value_type :: string

text \<open>
  An entry of \<^verbatim>\<open>SITES\<close>: a dict in which each of the six keys may be absent
  (\<open>None\<close>); \<^verbatim>\<open>css_selector\<close>, when present, may hold \<^verbatim>\<open>None\<close>.
\<close>

record raw_entry =
  r_id :: "string option"
  r_url :: "string option"
  r_description :: "string option"
  r_css_selector :: "string option option"
  r_normalize_whitespace :: "bool option"
  r_value_type :: "string option"

text \<open>\<^verbatim>\<open>entry[k]\<close> raises \<^verbatim>\<open>KeyError\<close> on a missing key; \<^verbatim>\<open>entry.get(k, d)\<close> gives \<open>d\<close>.\<close>

definition getitem :: "'a option \<Rightarrow> string \<Rightarrow> py_error + 'a" where
  "getitem field k = (case field of None \<Rightarrow> Inl (KeyError k) | Some v \<Rightarrow> Inr v)"

definition get_default :: "'a option \<Rightarrow> 'a \<Rightarrow> 'a" where
  "get_default field d = (case field of None \<Rightarrow> d | Some v \<Rightarrow> v)"

text \<open>The constructor call of \<^verbatim>\<open>to_site_configs\<close>; its arguments are evaluated in order.\<close>

definition make_site :: "raw_entry \<Rightarrow> py_error + SiteConfig" where
  "make_site entry =
     (case getitem (r_id entry) ''id'' of
        Inl e \<Rightarrow> Inl e
      | Inr i \<Rightarrow>
         (case getitem (r_url entry) ''url'' of
            Inl e \<Rightarrow> Inl e
          | Inr u \<Rightarrow>
              Inr \<lparr>site_id = i, url = u,
                   description = get_default (r_description entry) i,
                   css_selector = get_default (r_css_selector entry) None,
                   normalize_whitespace = get_default (r_normalize_whitespace entry) True,
                   value_type = get_default (r_value_type entry) ''text''\<rparr>))"

text \<open>
  The loop of \<^verbatim>\<open>to_site_configs\<close> over \<^verbatim>\<open>enumerate(raw_sites)\<close>. Only \<^verbatim>\<open>KeyError\<close> is
  caught; the warning printed for entry \<open>idx\<close> is recorded as \<open>(idx, key)\<close>.
\<close>

fun site_loop :: "nat \<Rightarrow> raw_entry list \<Rightarrow> SiteConfig list \<Rightarrow> (nat \<times> string) list
                    \<Rightarrow> py_error + SiteConfig list \<times> (nat \<times> string) list" where
  "site_loop idx [] sites warnings = Inr (sites, warnings)"
| "site_loop idx (entry # entries) sites warnings =
     (case make_site entry of
        Inr site \<Rightarrow> site_loop (Suc idx) entries (sites @ [site]) warnings
      | Inl (KeyError k) \<Rightarrow> site_loop (Suc idx) entries sites (warnings @ [(idx, k)])
      | Inl e \<Rightarrow> Inl e)"

definition to_site_configs :: "raw_entry list \<Rightarrow> py_error + SiteConfig list \<times> (nat \<times> string) list" where
  "to_site_configs raw_sites = site_loop 0 raw_sites [] []"

text \<open>An entry with both required keys, and the key reported for one without.\<close>

definition well_formed :: "raw_entry \<Rightarrow> bool" where
  "well_formed entry = (r_id entry \<noteq> None \<and> r_url entry \<noteq> None)"

definition missing_key :: "raw_entry \<Rightarrow> string" where
  "missing_key entry = (if r_id entry = None then ''id'' else ''url'')"

text \<open>
  The site a well-formed entry stands for, in the specification's words: the given
  fields, with \<open>description = id\<close>, \<open>selector = none\<close>, \<open>normalizeWhitespace = true\<close> and
  \<open>valueKind = text\<close> for the optional fields that are absent.
\<close>

definition site_of_entry :: "raw_entry \<Rightarrow> SiteConfig" where
  "site_of_entry entry =
     \<lparr>site_id = the (r_id entry), url = the (r_url entry),
      description = (case r_description entry of None \<Rightarrow> the (r_id entry) | Some d \<Rightarrow> d),
      css_selector = (case r_css_selector entry of None \<Rightarrow> None | Some c \<Rightarrow> c),
      normalize_whitespace = (case r_normalize_whitespace entry of None \<Rightarrow> True | Some b \<Rightarrow> b),
      value_type = (case r_value_type entry of None \<Rightarrow> ''text'' | Some v \<Rightarrow> v)\<rparr>"

text \<open>Four of the seven sites of \<^verbatim>\<open>SITES\<close>, as \<^verbatim>\<open>to_site_configs\<close> builds them.\<close>

definition stock_msft :: SiteConfig where
  "stock_msft = \<lparr>site_id = ''stock_msft'', url = ''https://finance.yahoo.com/quote/MSFT'',
     description = ''Microsoft stock quote page on Yahoo Finance (previous close price)'',
     css_selector = None, normalize_whitespace = True, value_type = ''stock_price''\<rparr>"

definition book_demo :: SiteConfig where
  "book_demo = \<lparr>site_id = ''book_demo'',
     url = ''https://books.toscrape.com/catalogue/a-light-in-the-attic_1000/index.html'',
     description = ''Demo book price from Books to Scrape'',
     css_selector = Some ''.product_main .price_color'', normalize_whitespace = True,
     value_type = ''price''\<rparr>"

definition nasa_apod :: SiteConfig where
  "nasa_apod = \<lparr>site_id = ''nasa_apod'', url = ''https://apod.nasa.gov/apod/astropix.html'',
     description = ''Title from NASA Astronomy Picture of the Day'',
     css_selector = None, normalize_whitespace = True, value_type = ''title''\<rparr>"

definition python_release :: SiteConfig where
  "python_release = \<lparr>site_id = ''python_release'', url = ''https://www.python.org/downloads/'',
     description = ''First release version from Python downloads page'',
     css_selector = None, normalize_whitespace = True, value_type = ''version''\<rparr>"

subsection \<open>Value extraction\<close>

text \<open>\<^verbatim>\<open>text[i]\<close> raises \<^verbatim>\<open>IndexError\<close> out of range.\<close>

definition char_at :: "string \<Rightarrow> nat \<Rightarrow> py_error + char" where
  "char_at text i = (if i < length text then Inr (text ! i) else Inl IndexError)"

text \<open>\<^verbatim>\<open>s.replace(" ", "")\<close>\<close>

definition remove_spaces :: "string \<Rightarrow> string" where
  "remove_spaces s = filter (\<lambda>c. c \<noteq> CHR '' '') s"

text \<open>The \<^verbatim>\<open>price\<close> branch of \<^verbatim>\<open>extract_value\<close>, which \<^verbatim>\<open>extract_stock_price_value\<close> repeats.\<close>

definition extract_price_value :: "string \<Rightarrow> py_error + string" where
  "extract_price_value text =
     (case search PRICE_PREFIX NUMBER text of
        Some (start, g0, g1) \<Rightarrow>
          (case char_at text start of
             Inl e \<Rightarrow> Inl e
           | Inr currency_symbol \<Rightarrow> Inr (currency_symbol # remove_spaces g1))
      | None \<Rightarrow> Inr (take 160 text))"

definition extract_stock_price_value :: "string \<Rightarrow> py_error + string" where
  "extract_stock_price_value text =
     (case search STOCK_PREFIX NUMBER text of
        Some (start, g0, g1) \<Rightarrow> Inr (CHR ''$'' # remove_spaces g1)
      | None \<Rightarrow> extract_price_value text)"

definition extract_value :: "SiteConfig \<Rightarrow> string \<Rightarrow> py_error + string" where
  "extract_value site text =
     (if value_type site = ''stock_price'' then extract_stock_price_value text
      else if value_type site = ''price'' then extract_price_value text
      else if value_type site = ''version'' then
        (case search Eps PYTHON_VERSION_PATTERN text of
           Some (start, g0, g1) \<Rightarrow> Inr g0
         | None \<Rightarrow> Inr (take 160 text))
      else Inr (take 160 text))"

text \<open>
  The fallback path of a strategy: the kinds \<^verbatim>\<open>title\<close>, \<^verbatim>\<open>text\<close> and every unknown kind
  always take it; the pattern kinds take it when their patterns occur nowhere.
\<close>

definition fallback :: "SiteConfig \<Rightarrow> string \<Rightarrow> bool" where
  "fallback site text =
     (if value_type site = ''stock_price''
      then \<not> occurs STOCK_PREV_CLOSE_PATTERN text \<and> \<not> occurs PRICE_PATTERN text
      else if value_type site = ''price'' then \<not> occurs PRICE_PATTERN text
      else if value_type site = ''version'' then \<not> occurs PYTHON_VERSION_PATTERN text
      else True)"

subsection \<open>Difference analyzer\<close>

text \<open>
  Python's \<^verbatim>\<open>float\<close> is a parameter: \<open>float_of\<close> is \<^verbatim>\<open>float(s)\<close> (\<open>None\<close> for
  \<^verbatim>\<open>ValueError\<close>), \<open>fsub\<close> is subtraction, \<open>gt_zero\<close> and \<open>lt_zero\<close> the comparisons with 0.
\<close>

record 'f float_ops =
  float_of :: "string \<Rightarrow> 'f option"
  fsub :: "'f \<Rightarrow> 'f \<Rightarrow> 'f"
  gt_zero :: "'f \<Rightarrow> bool"
  lt_zero :: "'f \<Rightarrow> bool"

text \<open>\<^verbatim>\<open>s.replace(",", "")\<close>\<close>

definition remove_commas :: "string \<Rightarrow> string" where
  "remove_commas s = filter (\<lambda>c. c \<noteq> CHR '','') s"

definition parse_number_from_value :: "'f float_ops \<Rightarrow> string \<Rightarrow> 'f option" where
  "parse_number_from_value ops v =
     (case search Eps NUMBER v of
        None \<Rightarrow> None
      | Some (start, g0, g1) \<Rightarrow> float_of ops (remove_commas g1))"

text \<open>
  \<^verbatim>\<open>describe_difference\<close> returns the empty string, here \<open>None\<close>, or an arrow and the
  difference formatted \<^verbatim>\<open>+.2f\<close>, here the direction the arrow stands for and the
  difference itself.
\<close>

datatype direction = Up | Down | Flat

definition describe_difference :: "'f float_ops \<Rightarrow> string \<Rightarrow> string \<Rightarrow> (direction \<times> 'f) option" where
  "describe_difference ops old_value new_value =
     (let old_num = parse_number_from_value ops old_value;
          new_num = parse_number_from_value ops new_value
      in case (old_num, new_num) of
           (Some old, Some new) \<Rightarrow>
             (let diff = fsub ops new old
              in Some (if gt_zero ops diff then Up else if lt_zero ops diff then Down else Flat, diff))
         | _ \<Rightarrow> None)"

text \<open>
  Exact decimal arithmetic on the rationals, for running the analyzer on numbers that
  binary floating point represents exactly. \<open>decimal_value\<close> reads the numerals the
  number pattern yields once their commas are removed: digits, then possibly a dot
  and more digits.
\<close>

fun digits_value :: "string \<Rightarrow> nat option" where
  "digits_value [] = Some 0"
| "digits_value (c # cs) =
     (case map_of (zip ''0123456789'' [0, 1, 2, 3, 4, 5, 6, 7, 8, 9]) c of
        None \<Rightarrow> None
      | Some d \<Rightarrow>
          (case digits_value cs of None \<Rightarrow> None | Some n \<Rightarrow> Some (d * 10 ^ length cs + n)))"

definition decimal_value :: "string \<Rightarrow> rat option" where
  "decimal_value s =
     (let ip = takeWhile (\<lambda>c. c \<noteq> CHR ''.'') s; rest = dropWhile (\<lambda>c. c \<noteq> CHR ''.'') s
      in if ip = [] then None
         else case (digits_value ip, rest) of
                (Some n, []) \<Rightarrow> Some (of_nat n)
              | (Some n, _ # fp) \<Rightarrow>
                  (case digits_value fp of
                     Some f \<Rightarrow> if fp = [] then None else Some (of_nat n + of_nat f / 10 ^ length fp)
                   | None \<Rightarrow> None)
              | _ \<Rightarrow> None)"

definition exact_ops :: "rat float_ops" where
  "exact_ops = \<lparr>float_of = decimal_value, fsub = (\<lambda>a b. a - b),
                 gt_zero = (\<lambda>d. d > 0), lt_zero = (\<lambda>d. d < 0)\<rparr>"

subsection \<open>Change ledger\<close>

text \<open>
  A Python dict is an association list in insertion order: \<^const>\<open>map_of\<close> is lookup and
  \<^const>\<open>AList.update\<close> is assignment (in place for a key that is present, at the end for a
  new one). The ledger maps a site id to an entry, itself a dict of strings.
\<close>

type_synonym entry = "(string \<times> string) list"
type_synonym ledger = "(string \<times> entry) list"

text \<open>What one site contributes to the output of a pass.\<close>

datatype event =
    FetchFailed string
  | Baseline string string
  | Changed string string string
  | Unchanged string string

record pass =
  state :: ledger
  any_changes :: bool
  events :: "event list"

text \<open>
  Lines 388 to 405 of \<^verbatim>\<open>check_sites\<close>, for one site whose value has been extracted.
  \<open>compute_hash\<close> is SHA-256 in the source and a parameter here. A stored entry that is
  an empty dict is falsy and counts as absent; \<^verbatim>\<open>previous["hash"]\<close> raises \<^verbatim>\<open>KeyError\<close>
  on an entry without that key; \<^verbatim>\<open>alert_change\<close> raises \<^verbatim>\<open>TypeError\<close> when the stored
  entry has no \<^verbatim>\<open>value\<close>, since it searches the old value for a number;
  \<^verbatim>\<open>state[site.id]\<close> raises \<^verbatim>\<open>KeyError\<close> on a missing id.
\<close>

definition previous_hash_of :: "entry option \<Rightarrow> py_error + string option" where
  "previous_hash_of previous =
     (case previous of
        None \<Rightarrow> Inr None
      | Some d \<Rightarrow>
          if d = [] then Inr None
          else (case map_of d ''hash'' of
                  None \<Rightarrow> Inl (KeyError ''hash'')
                | Some h \<Rightarrow> Inr (Some h)))"

definition previous_value_of :: "entry option \<Rightarrow> string option" where
  "previous_value_of previous =
     (case previous of None \<Rightarrow> None | Some d \<Rightarrow> if d = [] then None else map_of d ''value'')"

definition observe :: "(string \<Rightarrow> string) \<Rightarrow> SiteConfig \<Rightarrow> string \<Rightarrow> pass \<Rightarrow> py_error + pass" where
  "observe compute_hash site v p =
     (let new_hash = compute_hash v;
          previous = map_of (state p) (site_id site)
      in case previous_hash_of previous of
           Inl e \<Rightarrow> Inl e
         | Inr None \<Rightarrow>
             Inr (p\<lparr>state := AList.update (site_id site)
                                [(''hash'', new_hash), (''value'', v)] (state p),
                    events := events p @ [Baseline (site_id site) v]\<rparr>)
         | Inr (Some h) \<Rightarrow>
             if new_hash \<noteq> h then
               (case previous_value_of previous of
                  None \<Rightarrow> Inl TypeError
                | Some old \<Rightarrow>
                    (case map_of (state p) (site_id site) of
                       None \<Rightarrow> Inl (KeyError (site_id site))
                     | Some d \<Rightarrow>
                         Inr (p\<lparr>state := AList.update (site_id site)
                                  (AList.update ''value'' v (AList.update ''hash'' new_hash d))
                                  (state p),
                                any_changes := True,
                                events := events p @ [Changed (site_id site) old v]\<rparr>)))
             else Inr (p\<lparr>events := events p @ [Unchanged (site_id site) v]\<rparr>))"

text \<open>
  The body and the loop of \<^verbatim>\<open>check_sites\<close>. Each site comes with what
  \<^verbatim>\<open>fetch_content\<close> did for it: \<open>None\<close> when it raised, which the loop catches, or the
  page text.
\<close>

definition run_site :: "(string \<Rightarrow> string) \<Rightarrow> SiteConfig \<times> string option \<Rightarrow> pass \<Rightarrow> py_error + pass" where
  "run_site compute_hash input p =
     (case input of
        (site, None) \<Rightarrow> Inr (p\<lparr>events := events p @ [FetchFailed (site_id site)]\<rparr>)
      | (site, Some raw_text) \<Rightarrow>
          (case extract_value site raw_text of
             Inl e \<Rightarrow> Inl e
           | Inr v \<Rightarrow> observe compute_hash site v p))"

fun run_sites :: "(string \<Rightarrow> string) \<Rightarrow> (SiteConfig \<times> string option) list \<Rightarrow> pass \<Rightarrow> py_error + pass" where
  "run_sites compute_hash [] p = Inr p"
| "run_sites compute_hash (input # rest) p =
     (case run_site compute_hash input p of
        Inl e \<Rightarrow> Inl e
      | Inr p' \<Rightarrow> run_sites compute_hash rest p')"

text \<open>
  The \<open>i\<close>-th site of a pass is observed with a hash that differs from the one stored
  for it when its turn comes.
\<close>

definition observed_change ::
  "(string \<Rightarrow> string) \<Rightarrow> (SiteConfig \<times> string option) list \<Rightarrow> pass \<Rightarrow> nat \<Rightarrow> bool" where
  "observed_change compute_hash inputs p0 i =
     (\<exists>p site raw_text v d h.
        i < length inputs \<and> run_sites compute_hash (take i inputs) p0 = Inr p
        \<and> inputs ! i = (site, Some raw_text) \<and> extract_value site raw_text = Inr v
        \<and> map_of (state p) (site_id site) = Some d \<and> map_of d ''hash'' = Some h
        \<and> compute_hash v \<noteq> h)"

subsection \<open>Persistence\<close>

text \<open>
  The JSON library is a parameter: \<open>render\<close> writes a document with its keys in the
  order given (\<^verbatim>\<open>json.dump(data, f, indent=2)\<close>), \<open>parse\<close> is \<^verbatim>\<open>json.load\<close>, \<open>None\<close> when it
  raises. \<^verbatim>\<open>sort_keys=True\<close> makes the encoder walk every dict in the order of its
  sorted items, which is what \<open>sort_keys\<close> computes. A file is its content, \<open>None\<close> when
  it does not exist; writing is taken to succeed.
\<close>

definition sort_entry :: "string \<times> entry \<Rightarrow> string \<times> entry" where
  "sort_entry = (\<lambda>(k, d). (k, sort_key fst d))"

definition sort_keys :: "ledger \<Rightarrow> ledger" where
  "sort_keys data = sort_key fst (map sort_entry data)"

definition save_state :: "(ledger \<Rightarrow> string) \<Rightarrow> ledger \<Rightarrow> string option" where
  "save_state render data = Some (render (sort_keys data))"

definition load_state :: "(string \<Rightarrow> ledger option) \<Rightarrow> string option \<Rightarrow> ledger" where
  "load_state parse state_file =
     (case state_file of
        None \<Rightarrow> []
      | Some content \<Rightarrow> (case parse content of None \<Rightarrow> [] | Some data \<Rightarrow> data))"

text \<open>A dict has each key once, at both levels of the ledger.\<close>

definition is_dict :: "ledger \<Rightarrow> bool" where
  "is_dict data = (distinct (map fst data) \<and> list_all (\<lambda>(k, d). distinct (map fst d)) data)"

text \<open>Two ledgers with the same content, whatever the order of insertion.\<close>

definition same_content :: "ledger \<Rightarrow> ledger \<Rightarrow> bool" where
  "same_content a b =
     (is_dict a \<and> is_dict b \<and> set (map fst a) = set (map fst b)
      \<and> list_all (\<lambda>(k, d). case map_of b k of None \<Rightarrow> False | Some d' \<Rightarrow> set d = set d') a)"

subsection \<open>One pass\<close>

datatype summary = No_sites | Changes_detected | No_changes_detected

record outcome =
  state_file_after :: "string option"
  printed :: summary
  site_events :: "event list"

text \<open>
  \<^verbatim>\<open>check_sites\<close>, given the site list, what each fetch does and the state file. An
  exception that leaves the loop ends the pass before \<^verbatim>\<open>save_state\<close>. \<open>fetch_content i site\<close>
  is what \<^verbatim>\<open>fetch_content\<close> does for \<open>site\<close>, the \<open>i\<close>-th of the pass.
\<close>

definition pass_inputs ::
  "(nat \<Rightarrow> SiteConfig \<Rightarrow> string option) \<Rightarrow> SiteConfig list \<Rightarrow> (SiteConfig \<times> string option) list" where
  "pass_inputs fetch_content sites = map (\<lambda>(i, site). (site, fetch_content i site)) (enumerate 0 sites)"

definition initial_pass :: "(string \<Rightarrow> ledger option) \<Rightarrow> string option \<Rightarrow> pass" where
  "initial_pass parse state_file =
     \<lparr>state = load_state parse state_file, any_changes = False, events = []\<rparr>"

definition check_sites ::
  "(string \<Rightarrow> string) \<Rightarrow> (ledger \<Rightarrow> string) \<Rightarrow> (string \<Rightarrow> ledger option)
    \<Rightarrow> raw_entry list \<Rightarrow> (nat \<Rightarrow> SiteConfig \<Rightarrow> string option) \<Rightarrow> string option
    \<Rightarrow> py_error + outcome" where
  "check_sites compute_hash render parse SITES fetch_content state_file =
     (case to_site_configs SITES of
        Inl e \<Rightarrow> Inl e
      | Inr (sites, warnings) \<Rightarrow>
          if sites = [] then Inr \<lparr>state_file_after = state_file, printed = No_sites, site_events = []\<rparr>
          else
            (case run_sites compute_hash (pass_inputs fetch_content sites)
                    (initial_pass parse state_file) of
               Inl e \<Rightarrow> Inl e
             | Inr p \<Rightarrow>
                 Inr \<lparr>state_file_after = save_state render (state p),
                      printed = (if any_changes p then Changes_detected else No_changes_detected),
                      site_events = events p\<rparr>))"

text \<open>Every stored entry has the two keys the loop reads.\<close>

definition complete_entries :: "ledger \<Rightarrow> bool" where
  "complete_entries data =
     list_all (\<lambda>(k, d). map_of d ''hash'' \<noteq> None \<and> map_of d ''value'' \<noteq> None) data"

text \<open>The sites a pass runs over, as \<^verbatim>\<open>to_site_configs\<close> returns them.\<close>

definition configured :: "raw_entry list \<Rightarrow> SiteConfig list" where
  "configured SITES = map site_of_entry (filter well_formed SITES)"

text \<open>
  What a pass must not do to the entries of the loaded ledger: every id stays; the
  entry of an id is the loaded one when no fetched site has this id, and when every
  value observed for this id has the stored hash.
\<close>

definition entries_preserved ::
  "(string \<Rightarrow> string) \<Rightarrow> (SiteConfig \<times> string option) list \<Rightarrow> ledger \<Rightarrow> ledger \<Rightarrow> bool" where
  "entries_preserved compute_hash inputs loaded persisted =
     (\<forall>k d. map_of loaded k = Some d \<longrightarrow>
        (\<exists>d'. map_of persisted k = Some d')
      \<and> ((\<forall>site raw_text. (site, Some raw_text) \<in> set inputs \<longrightarrow> site_id site \<noteq> k)
            \<longrightarrow> map_of persisted k = Some d)
      \<and> (\<forall>h. map_of d ''hash'' = Some h
              \<and> (\<forall>site raw_text v. (site, Some raw_text) \<in> set inputs \<and> site_id site = k
                     \<and> extract_value site raw_text = Inr v \<longrightarrow> compute_hash v = h)
            \<longrightarrow> map_of persisted k = Some d))"

subsection \<open>A small configuration to run\<close>

text \<open>
  Two sites of kind \<^verbatim>\<open>text\<close> and an entry without url; a fetch that gives the first site
  a page and fails for the second; a state file whose parsed ledger holds the first
  site and a site that is no longer configured.
\<close>

definition demo_SITES :: "raw_entry list" where
  "demo_SITES =
     [\<lparr>r_id = Some ''status'', r_url = Some ''https://example.org/status'',
       r_description = None, r_css_selector = None, r_normalize_whitespace = None,
       r_value_type = Some ''text''\<rparr>,
      \<lparr>r_id = Some ''broken'', r_url = None,
       r_description = None, r_css_selector = None, r_normalize_whitespace = None,
       r_value_type = None\<rparr>,
      \<lparr>r_id = Some ''blog'', r_url = Some ''https://example.org/blog'',
       r_description = None, r_css_selector = None, r_normalize_whitespace = None,
       r_value_type = None\<rparr>]"

definition demo_fetch :: "nat \<Rightarrow> SiteConfig \<Rightarrow> string option" where
  "demo_fetch i site = (if site_id site = ''status'' then Some ''Degraded'' else None)"

definition demo_ledger :: ledger where
  "demo_ledger =
     [(''retired'', [(''hash'', ''x''), (''value'', ''old page'')]),
      (''status'', [(''hash'', ''lanoitarepO''), (''value'', ''Operational'')])]"

definition demo_parse :: "string \<Rightarrow> ledger option" where
  "demo_parse content = (if content = ''ledger'' then Some demo_ledger else None)"

text \<open>
  The same ledger as it may sit in memory, in another order of insertion, and a parser
  that reads back the one document the pass writes for it.
\<close>

definition demo_unsorted :: ledger where
  "demo_unsorted =
     [(''status'', [(''value'', ''Operational''), (''hash'', ''lanoitarepO'')]),
      (''retired'', [(''hash'', ''x''), (''value'', ''old page'')])]"

definition demo_render :: "ledger \<Rightarrow> string" where
  "demo_render data = concat (map (\<lambda>(k, d). k @ concat (map (\<lambda>(a, b). a @ b) d)) data)"

definition demo_read_back :: "string \<Rightarrow> ledger option" where
  "demo_read_back content = (if content = demo_render demo_ledger then Some demo_ledger else None)"

section \<open>The matcher against the languages\<close>

lemma set_star_rests: "set (star_rests p s) = {t. \<exists>m. s = m @ t \<and> list_all p m}"
proof (induction s)
  case Nil
  then show ?case by auto
next
  case (Cons c cs)
  show ?case
  proof (intro equalityI subsetI)
    fix t assume "t \<in> set (star_rests p (c # cs))"
    then consider "p c" "t \<in> set (star_rests p cs)" | "t = c # cs"
      by (auto split: if_splits)
    then show "t \<in> {t. \<exists>m. c # cs = m @ t \<and> list_all p m}"
    proof cases
      case 1
      then obtain m where "cs = m @ t" "list_all p m" using Cons.IH by auto
      then have "c # cs = (c # m) @ t \<and> list_all p (c # m)" using 1 by simp
      then show ?thesis by blast
    next
      case 2
      then have "c # cs = [] @ t \<and> list_all p []" by simp
      then show ?thesis by blast
    qed
  next
    fix t assume "t \<in> {t. \<exists>m. c # cs = m @ t \<and> list_all p m}"
    then obtain m where m: "c # cs = m @ t" "list_all p m" by auto
    show "t \<in> set (star_rests p (c # cs))"
    proof (cases m)
      case Nil
      then have "t = c # cs" using m by simp
      then show ?thesis by simp
    next
      case (Cons d ds)
      then have "cs = ds @ t" "p c" "list_all p ds" using m by auto
      then have "t \<in> set (star_rests p cs)" using Cons.IH by auto
      then show ?thesis using \<open>p c\<close> by simp
    qed
  qed
qed

lemma set_rests: "set (rests r s) = {t. \<exists>m. s = m @ t \<and> m \<in> lang r}"
proof (induction r arbitrary: s)
  case Eps
  then show ?case by auto
next
  case (Cls p)
  then show ?case by (cases s) auto
next
  case (Seq a b)
  show ?case
  proof (intro equalityI subsetI)
    fix t assume "t \<in> set (rests (Seq a b) s)"
    then obtain u where u: "u \<in> set (rests a s)" "t \<in> set (rests b u)" by auto
    then obtain m1 m2 where "s = m1 @ u" "m1 \<in> lang a" "u = m2 @ t" "m2 \<in> lang b"
      using Seq.IH by blast
    then have "s = (m1 @ m2) @ t \<and> m1 @ m2 \<in> lang (Seq a b)" by auto
    then show "t \<in> {t. \<exists>m. s = m @ t \<and> m \<in> lang (Seq a b)}" by blast
  next
    fix t assume "t \<in> {t. \<exists>m. s = m @ t \<and> m \<in> lang (Seq a b)}"
    then obtain m1 m2 where m: "s = (m1 @ m2) @ t" "m1 \<in> lang a" "m2 \<in> lang b" by auto
    then have "m2 @ t \<in> set (rests a s)" using Seq.IH(1)[of s] by auto
    moreover have "t \<in> set (rests b (m2 @ t))" using Seq.IH(2)[of "m2 @ t"] m by auto
    ultimately show "t \<in> set (rests (Seq a b) s)" by auto
  qed
next
  case (Opt a)
  then show ?case by auto
next
  case (Star p)
  then show ?case by (simp add: set_star_rests)
qed

lemma set_ways: "set (ways r g s) = {(u, t). u \<in> set (rests r s) \<and> t \<in> set (rests g u)}"
  by (auto simp: ways_def)

lemma ways_lang:
  "(u, t) \<in> set (ways r g s) \<longleftrightarrow> (\<exists>pre m. s = pre @ u \<and> u = m @ t \<and> pre \<in> lang r \<and> m \<in> lang g)"
  unfolding set_ways set_rests by auto

lemma match_at_None: "match_at r g s = None \<longleftrightarrow> \<not> (\<exists>m t. s = m @ t \<and> m \<in> lang (Seq r g))"
proof
  assume "match_at r g s = None"
  then have e: "ways r g s = []" by (cases "ways r g s") (simp_all add: match_at_def split: prod.splits)
  show "\<not> (\<exists>m t. s = m @ t \<and> m \<in> lang (Seq r g))"
  proof
    assume "\<exists>m t. s = m @ t \<and> m \<in> lang (Seq r g)"
    then obtain pre m t where "s = (pre @ m) @ t" "pre \<in> lang r" "m \<in> lang g" by auto
    then have "(m @ t, t) \<in> set (ways r g s)" unfolding ways_lang by auto
    then show False using e by simp
  qed
next
  assume n: "\<not> (\<exists>m t. s = m @ t \<and> m \<in> lang (Seq r g))"
  have "ways r g s = []"
  proof (cases "ways r g s")
    case (Cons x xs)
    obtain u t where "x = (u, t)" by (cases x)
    then have "(u, t) \<in> set (ways r g s)" using Cons by simp
    then obtain pre m where "s = pre @ u" "u = m @ t" "pre \<in> lang r" "m \<in> lang g"
      unfolding ways_lang by blast
    then have "s = (pre @ m) @ t \<and> pre @ m \<in> lang (Seq r g)" by auto
    then show ?thesis using n by blast
  qed simp
  then show "match_at r g s = None" by (simp add: match_at_def)
qed

lemma match_at_Some:
  assumes "match_at r g s = Some (g0, g1)"
  shows "\<exists>pre t. s = pre @ g1 @ t \<and> g0 = pre @ g1 \<and> pre \<in> lang r \<and> g1 \<in> lang g"
proof -
  from assms obtain u t rest where l: "ways r g s = (u, t) # rest"
    and g: "g0 = take (length s - length t) s" "g1 = take (length u - length t) u"
    by (auto simp: match_at_def split: list.splits)
  have "(u, t) \<in> set (ways r g s)" using l by simp
  then obtain pre m where "s = pre @ u" "pre \<in> lang r" "u = m @ t" "m \<in> lang g"
    unfolding ways_lang by blast
  then show ?thesis using g by auto
qed

lemma search_from_None:
  "search_from r g i s = None \<longleftrightarrow> (\<forall>k\<le>length s. match_at r g (drop k s) = None)"
proof (induction s arbitrary: i)
  case Nil
  then show ?case by (auto split: option.splits)
next
  case (Cons c cs)
  have "(\<forall>k\<le>length (c # cs). match_at r g (drop k (c # cs)) = None) \<longleftrightarrow>
        match_at r g (c # cs) = None \<and> (\<forall>k\<le>length cs. match_at r g (drop k cs) = None)"
    (is "?A \<longleftrightarrow> ?B \<and> ?C")
  proof
    assume a: ?A
    have "?B" using a[rule_format, of 0] by simp
    moreover have "?C"
    proof (intro allI impI)
      fix k assume "k \<le> length cs"
      then show "match_at r g (drop k cs) = None" using a[rule_format, of "Suc k"] by simp
    qed
    ultimately show "?B \<and> ?C" ..
  next
    assume bc: "?B \<and> ?C"
    show ?A
    proof (intro allI impI)
      fix k assume "k \<le> length (c # cs)"
      then show "match_at r g (drop k (c # cs)) = None"
        using bc by (cases k) auto
    qed
  qed
  then show ?case using Cons.IH by (auto split: option.splits)
qed

lemma search_from_Some:
  assumes "search_from r g i s = Some (j, m)"
  shows "\<exists>before. length before \<le> length s \<and> before = take (length before) s \<and> j = i + length before
            \<and> match_at r g (drop (length before) s) = Some m
            \<and> (\<forall>k<length before. match_at r g (drop k s) = None)"
  using assms
proof (induction s arbitrary: i)
  case Nil
  then have "match_at r g [] = Some m" "j = i" by (auto split: option.splits)
  then show ?case by (intro exI[of _ "[]"]) simp
next
  case (Cons c cs)
  show ?case
  proof (cases "match_at r g (c # cs)")
    case None
    then have "search_from r g (Suc i) cs = Some (j, m)" using Cons.prems by simp
    from Cons.IH[OF this] obtain before where b: "length before \<le> length cs"
      "before = take (length before) cs" "j = Suc i + length before"
      "match_at r g (drop (length before) cs) = Some m"
      "\<forall>k<length before. match_at r g (drop k cs) = None" by blast
    have "\<forall>k<length (c # before). match_at r g (drop k (c # cs)) = None"
    proof (intro allI impI)
      fix k assume "k < length (c # before)"
      then show "match_at r g (drop k (c # cs)) = None" using b(5) None by (cases k) auto
    qed
    moreover have "c # before = take (length (c # before)) (c # cs)" using b(2) by simp
    ultimately show ?thesis using b by (intro exI[of _ "c # before"]) simp
  next
    case (Some m')
    then have "m' = m" "j = i" using Cons.prems by auto
    then show ?thesis using Some by (intro exI[of _ "[]"]) simp
  qed
qed

subsection \<open>The matcher in continuation style\<close>

lemma rests_alts: "rests r s = alts r (\<lambda>t. [t]) s"
  by (simp add: alts_def)

lemma ways_alts: "ways r g s = alts r (\<lambda>u. map (Pair u) (rests g u)) s"
  by (simp add: alts_def ways_def)

lemma alts_Eps [simp]: "alts Eps k s = k s"
  by (simp add: alts_def)

lemma alts_Cls [simp]: "alts (Cls p) k s = (case s of [] \<Rightarrow> [] | c # cs \<Rightarrow> if p c then k cs else [])"
  by (cases s) (simp_all add: alts_def)

lemma concat_map_concat: "concat (map f (concat (map g l))) = concat (map (\<lambda>u. concat (map f (g u))) l)"
  by (induction l) simp_all

lemma alts_Seq [simp]: "alts (Seq a b) k s = alts a (alts b k) s"
proof -
  have "alts b k = (\<lambda>u. concat (map k (rests b u)))" by (simp add: fun_eq_iff alts_def)
  then show ?thesis by (simp add: alts_def concat_map_concat)
qed

lemma alts_Opt [simp]: "alts (Opt a) k s = alts a k s @ k s"
  by (simp add: alts_def)

lemma alts_Star_head: "\<exists>l. alts (Star p) k s = k (dropWhile p s) @ l"
proof (induction s)
  case Nil
  then show ?case by (simp add: alts_def)
next
  case (Cons c cs)
  then obtain l where l: "alts (Star p) k cs = k (dropWhile p cs) @ l" by blast
  show ?case
  proof (cases "p c")
    case True
    then have "alts (Star p) k (c # cs) = alts (Star p) k cs @ k (c # cs)"
      by (simp add: alts_def)
    then show ?thesis using l True by simp
  next
    case False
    then show ?thesis by (simp add: alts_def)
  qed
qed

lemma alts_Star_rejects:
  assumes "\<And>c cs. p c \<Longrightarrow> k (c # cs) = []"
  shows "alts (Star p) k s = k (dropWhile p s)"
proof (induction s)
  case Nil
  then show ?case by (simp add: alts_def)
next
  case (Cons c cs)
  show ?case
  proof (cases "p c")
    case True
    then have "alts (Star p) k (c # cs) = alts (Star p) k cs @ k (c # cs)"
      by (simp add: alts_def)
    then show ?thesis using Cons True assms by simp
  next
    case False
    then show ?thesis by (simp add: alts_def)
  qed
qed

lemma alts_word: "alts (word f w) k s = (case strip f w s of None \<Rightarrow> [] | Some s' \<Rightarrow> k s')"
proof (induction w arbitrary: s)
  case Nil
  then show ?case by simp
next
  case (Cons c cs)
  then show ?case by (cases s) simp_all
qed

lemma alts_rep1_rejects:
  assumes "\<And>c cs. p c \<Longrightarrow> k (c # cs) = []"
  shows "alts (rep1 p) k s = (case run1 p s of None \<Rightarrow> [] | Some s' \<Rightarrow> k s')"
proof -
  have "alts (Star p) k cs = k (dropWhile p cs)" for cs
    using assms by (rule alts_Star_rejects)
  then show ?thesis by (cases s) (simp_all add: rep1_def run1_def)
qed

lemma alts_rep1_head:
  "\<exists>l. alts (rep1 p) k s = (case run1 p s of None \<Rightarrow> [] | Some s' \<Rightarrow> k s' @ l)"
proof (cases s)
  case Nil
  then show ?thesis by (simp add: rep1_def run1_def)
next
  case (Cons c cs)
  obtain l where "alts (Star p) k cs = k (dropWhile p cs) @ l" using alts_Star_head by blast
  then show ?thesis using Cons by (simp add: rep1_def run1_def)
qed

subsection \<open>The number pattern against its scanner\<close>

lemma alts_decimals:
  "alts DECIMALS k x
     = (if scan_decimals x = x \<and> \<not> (\<exists>b c y. x = CHR ''.'' # b # c # y \<and> is_digit b \<and> is_digit c) then [] else k (scan_decimals x))"
  by (auto simp: DECIMALS_def lit_def scan_decimals_def split: list.splits)

lemma alts_NUMBER_None: "scan_number s = None \<Longrightarrow> alts NUMBER k s = []"
  by (auto simp: NUMBER_def scan_number_def split: list.splits if_splits)

lemma alts_NUMBER_Some:
  assumes "scan_number s = Some t"
  shows "\<exists>l. alts NUMBER k s = k t @ l"
proof -
  from assms obtain d u where s: "s = d # u" "is_digit d"
    and t: "t = scan_decimals (dropWhile is_digit_or_comma u)"
    by (auto simp: scan_number_def split: list.splits if_splits)
  let ?x = "dropWhile is_digit_or_comma u"
  let ?K = "alts (Opt DECIMALS) k"
  obtain l where l: "alts (Star is_digit_or_comma) ?K u = ?K ?x @ l"
    using alts_Star_head by blast
  have "\<exists>l'. ?K ?x = k t @ l'"
    unfolding alts_Opt alts_decimals t by auto
  then obtain l' where "?K ?x = k t @ l'" by blast
  then have "alts NUMBER k s = k t @ (l' @ l)" using s l by (simp add: NUMBER_def)
  then show ?thesis by blast
qed

subsection \<open>Search against occurrence\<close>

lemma lang_Seq_Eps [simp]: "lang (Seq Eps g) = lang g"
  by auto

lemma occurs_at_match_at:
  "occurs_at (Seq r g) text k \<longleftrightarrow> k \<le> length text \<and> match_at r g (drop k text) \<noteq> None"
  unfolding occurs_at_def match_at_None by blast

lemma not_occurs_at:
  "\<not> occurs_at (Seq r g) text k \<longleftrightarrow> (k \<le> length text \<longrightarrow> match_at r g (drop k text) = None)"
  unfolding occurs_at_def match_at_None by simp

lemma search_None: "search r g text = None \<longleftrightarrow> \<not> occurs (Seq r g) text"
proof -
  have "search r g text = None \<longleftrightarrow> (\<forall>k\<le>length text. match_at r g (drop k text) = None)"
    by (simp add: search_def search_from_None)
  also have "\<dots> \<longleftrightarrow> (\<forall>k. \<not> occurs_at (Seq r g) text k)"
    unfolding not_occurs_at by simp
  also have "\<dots> \<longleftrightarrow> \<not> occurs (Seq r g) text"
    by (simp add: occurs_def)
  finally show ?thesis .
qed

lemma search_Some:
  assumes "search r g text = Some (k, g0, g1)"
  shows "\<exists>before pre after. text = before @ pre @ g1 @ after \<and> k = length before
           \<and> g0 = pre @ g1 \<and> pre \<in> lang r \<and> g1 \<in> lang g
           \<and> match_at r g (pre @ g1 @ after) = Some (g0, g1)
           \<and> (\<forall>j<length before. \<not> occurs_at (Seq r g) text j)"
proof -
  from assms have "search_from r g 0 text = Some (k, (g0, g1))" by (simp add: search_def)
  from search_from_Some[OF this] obtain before where b: "length before \<le> length text"
    "before = take (length before) text" "k = length before"
    "match_at r g (drop (length before) text) = Some (g0, g1)"
    "\<forall>j<length before. match_at r g (drop j text) = None" by auto
  from match_at_Some[OF b(4)] obtain pre t where m:
    "drop (length before) text = pre @ g1 @ t" "g0 = pre @ g1" "pre \<in> lang r" "g1 \<in> lang g"
    by blast
  have "text = before @ drop (length before) text"
    using b(2) by (metis append_take_drop_id)
  then have t: "text = before @ pre @ g1 @ t" using m(1) by simp
  have "\<forall>j<length before. \<not> occurs_at (Seq r g) text j"
    using b(1,5) by (simp add: not_occurs_at)
  moreover have "match_at r g (pre @ g1 @ t) = Some (g0, g1)" using b(4) m(1) by simp
  ultimately show ?thesis
    using t b(3) m(2,3,4) by (intro exI[of _ before] exI[of _ pre] exI[of _ t]) simp
qed

lemma search_first_match:
  assumes longest: "\<And>s g0 g1 m' t'. match_at r g s = Some (g0, g1) \<Longrightarrow> s = m' @ t'
                      \<Longrightarrow> m' \<in> lang (Seq r g) \<Longrightarrow> length m' \<le> length g0"
    and found: "search r g text = Some (k, g0, g1)"
  shows "\<exists>before pre after. first_match (Seq r g) text before (pre @ g1) after
           \<and> k = length before \<and> g0 = pre @ g1 \<and> pre \<in> lang r \<and> g1 \<in> lang g"
proof -
  from search_Some[OF found] obtain before pre after where s:
    "text = before @ pre @ g1 @ after" "k = length before" "g0 = pre @ g1"
    "pre \<in> lang r" "g1 \<in> lang g" "match_at r g (pre @ g1 @ after) = Some (g0, g1)"
    "\<forall>j<length before. \<not> occurs_at (Seq r g) text j" by blast
  have "pre @ g1 \<in> lang (Seq r g)" using s(4,5) by auto
  moreover have "length m' \<le> length (pre @ g1)"
    if "(pre @ g1) @ after = m' @ after'" "m' \<in> lang (Seq r g)" for m' after'
  proof -
    from that(1) have "pre @ g1 @ after = m' @ after'" by simp
    from longest[OF s(6) this that(2)] show ?thesis using s(3) by simp
  qed
  ultimately have "first_match (Seq r g) text before (pre @ g1) after"
    unfolding first_match_def
  proof (intro conjI allI impI)
    show "text = before @ (pre @ g1) @ after" using s(1) by simp
    show "\<not> occurs_at (Seq r g) text j" if "j < length before" for j
      using s(7) that by simp
  qed auto
  then show ?thesis
    using s(2,3,4,5) by (intro exI[of _ before] exI[of _ pre] exI[of _ after]) simp
qed

subsection \<open>The first way is the longest\<close>

lemma rests_suffix: "t \<in> set (rests r s) \<Longrightarrow> length t \<le> length s"
  unfolding set_rests by auto

lemma match_at_longest:
  assumes m: "match_at r g s = Some (g0, g1)"
    and shortest: "\<And>u t u' t' l. ways r g s = (u, t) # l \<Longrightarrow> (u', t') \<in> set (ways r g s)
                      \<Longrightarrow> length t \<le> length t'"
    and p: "s = m' @ t'" "m' \<in> lang (Seq r g)"
  shows "length m' \<le> length g0"
proof -
  from m obtain u t l where w: "ways r g s = (u, t) # l" and g0: "g0 = take (length s - length t) s"
    by (auto simp: match_at_def split: list.splits)
  from p obtain pre m2 where "m' = pre @ m2" "pre \<in> lang r" "m2 \<in> lang g" by auto
  then have "(m2 @ t', t') \<in> set (ways r g s)" unfolding ways_lang using p(1) by auto
  from shortest[OF w this] have "length t \<le> length t'" .
  moreover have "length g0 = length s - length t" using g0 by simp
  ultimately show ?thesis using p(1) by simp
qed

lemma dropWhile_shortest:
  assumes "s = m @ t" "list_all p m"
  shows "length (dropWhile p s) \<le> length t"
proof -
  have "dropWhile p s = dropWhile p t"
    using assms by (simp add: list_all_iff dropWhile_append2)
  then show ?thesis by (simp add: length_dropWhile_le)
qed

lemma scan_decimals_le: "length (scan_decimals x) \<le> length x"
  by (auto simp: scan_decimals_def split: list.splits)

lemma dot_not_digit_or_comma: "\<not> is_digit_or_comma CHR ''.''"
  by (simp add: is_digit_or_comma_def is_digit_def)

lemma lang_Cls: "w \<in> lang (Cls p) \<longleftrightarrow> (\<exists>c. w = [c] \<and> p c)"
  by auto

lemma lang_Seq: "w \<in> lang (Seq a b) \<longleftrightarrow> (\<exists>u v. w = u @ v \<and> u \<in> lang a \<and> v \<in> lang b)"
  by auto

lemma lang_Cls_Seq: "w \<in> lang (Seq (Cls p) b) \<longleftrightarrow> (\<exists>c v. w = c # v \<and> p c \<and> v \<in> lang b)"
proof
  assume "w \<in> lang (Seq (Cls p) b)"
  then obtain u v where "w = u @ v" "u \<in> lang (Cls p)" "v \<in> lang b"
    unfolding lang_Seq by blast
  then show "\<exists>c v. w = c # v \<and> p c \<and> v \<in> lang b"
    unfolding lang_Cls by auto
next
  assume "\<exists>c v. w = c # v \<and> p c \<and> v \<in> lang b"
  then obtain c v where "w = [c] @ v" "p c" "v \<in> lang b" by auto
  moreover have "[c] \<in> lang (Cls p)" using \<open>p c\<close> unfolding lang_Cls by blast
  ultimately show "w \<in> lang (Seq (Cls p) b)" unfolding lang_Seq by blast
qed

lemma lang_Star: "w \<in> lang (Star p) \<longleftrightarrow> list_all p w"
  by simp

lemma lang_Star_Seq:
  "w \<in> lang (Seq (Star p) b) \<longleftrightarrow> (\<exists>run v. w = run @ v \<and> list_all p run \<and> v \<in> lang b)"
  unfolding lang_Seq lang_Star ..

lemma lang_rep1_Seq:
  "w \<in> lang (Seq (rep1 p) b) \<longleftrightarrow>
     (\<exists>c run v. w = c # run @ v \<and> p c \<and> list_all p run \<and> v \<in> lang b)"
proof
  assume "w \<in> lang (Seq (rep1 p) b)"
  then obtain u v where uv: "w = u @ v" "u \<in> lang (rep1 p)" "v \<in> lang b"
    unfolding lang_Seq by blast
  from uv(2) obtain c run where "u = c # run" "p c" "run \<in> lang (Star p)"
    unfolding rep1_def lang_Cls_Seq by blast
  then show "\<exists>c run v. w = c # run @ v \<and> p c \<and> list_all p run \<and> v \<in> lang b"
    using uv by auto
next
  assume "\<exists>c run v. w = c # run @ v \<and> p c \<and> list_all p run \<and> v \<in> lang b"
  then obtain c run v where h: "w = (c # run) @ v" "p c" "list_all p run" "v \<in> lang b" by auto
  have "c # run \<in> lang (rep1 p)" unfolding rep1_def lang_Cls_Seq lang_Star using h by blast
  then show "w \<in> lang (Seq (rep1 p) b)" unfolding lang_Seq using h by blast
qed

lemma lang_word: "w \<in> lang (word f x) \<longleftrightarrow> length w = length x \<and> map f w = map f x"
proof (induction x arbitrary: w)
  case Nil
  then show ?case by simp
next
  case (Cons c cs)
  have "w \<in> lang (word f (c # cs)) \<longleftrightarrow> (\<exists>d v. w = d # v \<and> f d = f c \<and> v \<in> lang (word f cs))"
    unfolding word.simps lang_Cls_Seq ..
  also have "\<dots> \<longleftrightarrow> (\<exists>d v. w = d # v \<and> f d = f c \<and> length v = length cs \<and> map f v = map f cs)"
    unfolding Cons.IH ..
  also have "\<dots> \<longleftrightarrow> length w = length (c # cs) \<and> map f w = map f (c # cs)"
    by (cases w) auto
  finally show ?case .
qed

lemma lang_lit: "w \<in> lang (lit x) \<longleftrightarrow> w = x"
  by (auto simp: lit_def lang_word)

lemma lang_two_digits:
  "v \<in> lang (Seq (Cls is_digit) (Cls is_digit)) \<longleftrightarrow> (\<exists>b c. v = [b, c] \<and> is_digit b \<and> is_digit c)"
  unfolding lang_Cls_Seq lang_Cls by blast

lemma lang_decimals:
  "w \<in> lang DECIMALS \<longleftrightarrow> (\<exists>b c. w = [CHR ''.'', b, c] \<and> is_digit b \<and> is_digit c)"
proof -
  have "w \<in> lang DECIMALS \<longleftrightarrow>
        (\<exists>u v. w = u @ v \<and> u = ''.'' \<and> (\<exists>b c. v = [b, c] \<and> is_digit b \<and> is_digit c))"
    unfolding DECIMALS_def lang_Seq[of w] lang_lit lang_two_digits ..
  also have "\<dots> \<longleftrightarrow> (\<exists>b c. w = [CHR ''.'', b, c] \<and> is_digit b \<and> is_digit c)"
    by auto
  finally show ?thesis .
qed

lemma lang_Opt: "w \<in> lang (Opt a) \<longleftrightarrow> w = [] \<or> w \<in> lang a"
  by simp

lemma lang_NUMBER:
  "m \<in> lang NUMBER \<longleftrightarrow>
     (\<exists>d run dec. m = d # run @ dec \<and> is_digit d \<and> list_all is_digit_or_comma run
         \<and> (dec = [] \<or> dec \<in> lang DECIMALS))"
proof -
  have "m \<in> lang NUMBER \<longleftrightarrow>
      (\<exists>d v. m = d # v \<and> is_digit d \<and> (\<exists>run dec. v = run @ dec \<and> list_all is_digit_or_comma run
         \<and> (dec = [] \<or> dec \<in> lang DECIMALS)))"
    unfolding NUMBER_def lang_Cls_Seq lang_Star_Seq lang_Opt ..
  also have "\<dots> \<longleftrightarrow> (\<exists>d run dec. m = d # run @ dec \<and> is_digit d \<and> list_all is_digit_or_comma run
         \<and> (dec = [] \<or> dec \<in> lang DECIMALS))"
    by blast
  finally show ?thesis .
qed

lemma number_shortest:
  assumes "scan_number s = Some t" "t' \<in> set (rests NUMBER s)"
  shows "length t \<le> length t'"
proof -
  from assms(1) obtain d u where s: "s = d # u" "is_digit d"
    and t: "t = scan_decimals (dropWhile is_digit_or_comma u)"
    by (auto simp: scan_number_def split: list.splits if_splits)
  from assms(2) obtain m where m: "s = m @ t'" "m \<in> lang NUMBER" unfolding set_rests by blast
  from m(2) obtain d' run dec where m': "m = d' # run @ dec" "list_all is_digit_or_comma run"
    "dec = [] \<or> dec \<in> lang DECIMALS"
    unfolding lang_NUMBER by blast
  have u: "u = run @ dec @ t'" using s m m' by simp
  have dw: "dropWhile is_digit_or_comma u = dropWhile is_digit_or_comma (dec @ t')"
    using m'(2) u by (simp add: list_all_iff dropWhile_append2)
  from m'(3) show ?thesis
  proof
    assume "dec = []"
    then have "length (dropWhile is_digit_or_comma u) \<le> length t'"
      using dw by (simp add: length_dropWhile_le)
    then show ?thesis using scan_decimals_le[of "dropWhile is_digit_or_comma u"] t by simp
  next
    assume "dec \<in> lang DECIMALS"
    then obtain b c where "dec = [CHR ''.'', b, c]" "is_digit b" "is_digit c"
      unfolding lang_decimals by blast
    then have "t = t'" using dw t dot_not_digit_or_comma by (simp add: scan_decimals_def)
    then show ?thesis by simp
  qed
qed

lemma rests_NUMBER_None: "scan_number s = None \<Longrightarrow> rests NUMBER s = []"
  unfolding rests_alts by (rule alts_NUMBER_None)

lemma rests_NUMBER_Some: "scan_number s = Some t \<Longrightarrow> \<exists>l. rests NUMBER s = t # l"
  unfolding rests_alts using alts_NUMBER_Some[of s t "\<lambda>t. [t]"] by simp

subsection \<open>The patterns against their scanners\<close>

lemma space_not_digit: "is_space c \<Longrightarrow> \<not> is_digit c"
  by (auto simp: is_space_def is_digit_def)

lemma space_not_c: "is_space c \<Longrightarrow> ascii_lower c \<noteq> ascii_lower CHR ''c''"
  by (auto simp: is_space_def ascii_lower_def)

lemma space_not_3: "is_space c \<Longrightarrow> c \<noteq> CHR ''3''"
  by (auto simp: is_space_def)

lemma digit_not_dot: "is_digit c \<Longrightarrow> c \<noteq> CHR ''.''"
  by (auto simp: is_digit_def)

lemma rests_NUMBER_space: "is_space c \<Longrightarrow> rests NUMBER (c # cs) = []"
  by (rule rests_NUMBER_None) (simp add: scan_number_def space_not_digit)

lemma ways_Eps: "ways Eps g s = map (Pair s) (rests g s)"
  by (simp add: ways_def)

lemma ways_PRICE:
  "ways PRICE_PREFIX NUMBER s =
     (case scan_price_prefix s of None \<Rightarrow> [] | Some u \<Rightarrow> map (Pair u) (rests NUMBER u))"
proof -
  let ?K = "\<lambda>u. map (Pair u) (rests NUMBER u)"
  have "alts (Star is_space) ?K cs = ?K (dropWhile is_space cs)" for cs
    by (rule alts_Star_rejects) (simp add: rests_NUMBER_space)
  then show ?thesis
    by (cases s) (simp_all add: ways_alts PRICE_PREFIX_def scan_price_prefix_def)
qed

lemma ways_STOCK:
  "ways STOCK_PREFIX NUMBER s =
     (case scan_stock_prefix s of None \<Rightarrow> [] | Some u \<Rightarrow> map (Pair u) (rests NUMBER u))"
proof -
  let ?K = "\<lambda>u. map (Pair u) (rests NUMBER u)"
  let ?K2 = "alts (word ascii_lower ''close'') (alts (rep1 is_space) ?K)"
  have 1: "alts (rep1 is_space) ?K s = (case run1 is_space s of None \<Rightarrow> [] | Some s' \<Rightarrow> ?K s')" for s
    by (rule alts_rep1_rejects) (simp add: rests_NUMBER_space)
  have 2: "alts (rep1 is_space) ?K2 s = (case run1 is_space s of None \<Rightarrow> [] | Some s' \<Rightarrow> ?K2 s')" for s
    by (rule alts_rep1_rejects) (simp add: alts_word space_not_c)
  show ?thesis
    unfolding ways_alts STOCK_PREFIX_def lit_ci_def alts_Seq 2 scan_stock_prefix_def
    unfolding alts_word[of ascii_lower "''Previous''"] alts_word[of ascii_lower "''close''"] 1
    by (simp split: option.splits Option.bind_splits)
qed

lemma rests_VERSION:
  "rests PYTHON_VERSION_PATTERN s =
     (case scan_version_prefix s of None \<Rightarrow> [] | Some u \<Rightarrow> rests (rep1 is_digit) u)"
proof -
  define K6 where "K6 = (\<lambda>u. rests (rep1 is_digit) u)"
  define K5 where "K5 = (\<lambda>s. case strip (\<lambda>c. c) ''.'' s of None \<Rightarrow> [] | Some s' \<Rightarrow> K6 s')"
  define K4 where "K4 = (\<lambda>s. case run1 is_digit s of None \<Rightarrow> [] | Some s' \<Rightarrow> K5 s')"
  define K3 where "K3 = (\<lambda>s. case strip (\<lambda>c. c) ''3.'' s of None \<Rightarrow> [] | Some s' \<Rightarrow> K4 s')"
  define K2 where "K2 = (\<lambda>s. case run1 is_space s of None \<Rightarrow> [] | Some s' \<Rightarrow> K3 s')"
  define K1 where "K1 = (\<lambda>s. case strip (\<lambda>c. c) ''Python'' s of None \<Rightarrow> [] | Some s' \<Rightarrow> K2 s')"
  have 6: "alts (rep1 is_digit) (\<lambda>t. [t]) = K6"
    by (simp add: K6_def fun_eq_iff rests_alts)
  have 5: "alts (word (\<lambda>c. c) ''.'') K6 = K5"
    unfolding K5_def fun_eq_iff alts_word by simp
  have r5: "K5 (c # cs) = []" if "is_digit c" for c cs
    using that by (simp add: K5_def digit_not_dot)
  have 4: "alts (rep1 is_digit) K5 = K4"
    unfolding K4_def fun_eq_iff using alts_rep1_rejects[of is_digit K5] r5 by simp
  have 3: "alts (word (\<lambda>c. c) ''3.'') K4 = K3"
    unfolding K3_def fun_eq_iff alts_word by simp
  have r3: "K3 (c # cs) = []" if "is_space c" for c cs
    using that by (simp add: K3_def space_not_3)
  have 2: "alts (rep1 is_space) K3 = K2"
    unfolding K2_def fun_eq_iff using alts_rep1_rejects[of is_space K3] r3 by simp
  have 1: "alts (word (\<lambda>c. c) ''Python'') K2 = K1"
    unfolding K1_def fun_eq_iff alts_word by simp
  have "rests PYTHON_VERSION_PATTERN s = alts PYTHON_VERSION_PATTERN (\<lambda>t. [t]) s"
    by (rule rests_alts)
  also have "\<dots> = K1 s"
    unfolding PYTHON_VERSION_PATTERN_def lit_def alts_Seq 6 5 4 3 2 1 ..
  also have "K1 s = (case scan_version_prefix s of None \<Rightarrow> [] | Some u \<Rightarrow> rests (rep1 is_digit) u)"
    unfolding K1_def K2_def K3_def K4_def K5_def K6_def scan_version_prefix_def
    by (simp split: option.splits Option.bind_splits)
  finally show ?thesis .
qed

subsection \<open>The engine's match is the longest at its position\<close>

lemma ways_NUMBER_shortest:
  assumes w: "ways r NUMBER s = (case pre s of None \<Rightarrow> [] | Some u \<Rightarrow> map (Pair u) (rests NUMBER u))"
    and h: "ways r NUMBER s = (u, t) # l"
    and m: "(u', t') \<in> set (ways r NUMBER s)"
  shows "length t \<le> length t'"
proof -
  from w h obtain u0 where u0: "pre s = Some u0" "map (Pair u0) (rests NUMBER u0) = (u, t) # l"
    by (cases "pre s") auto
  then obtain l' where r: "rests NUMBER u0 = t # l'"
    by (cases "rests NUMBER u0") auto
  then obtain t0 where t0: "scan_number u0 = Some t0"
    using rests_NUMBER_None[of u0] by (cases "scan_number u0") auto
  from rests_NUMBER_Some[OF t0] r have "t0 = t" by auto
  moreover have "t' \<in> set (rests NUMBER u0)" using m w u0(1) by auto
  ultimately show ?thesis using number_shortest[OF t0] by simp
qed

lemma longest_NUMBER:
  assumes "match_at Eps NUMBER s = Some (g0, g1)" "s = m' @ t'" "m' \<in> lang (Seq Eps NUMBER)"
  shows "length m' \<le> length g0"
proof (rule match_at_longest[OF assms(1) _ assms(2,3)])
  fix u t u' t' l
  assume "ways Eps NUMBER s = (u, t) # l" "(u', t') \<in> set (ways Eps NUMBER s)"
  moreover have "ways Eps NUMBER s = (case Some s of None \<Rightarrow> [] | Some u \<Rightarrow> map (Pair u) (rests NUMBER u))"
    by (simp add: ways_Eps)
  ultimately show "length t \<le> length t'" by (rule ways_NUMBER_shortest[where pre = Some, rotated])
qed

lemma longest_PRICE:
  assumes "match_at PRICE_PREFIX NUMBER s = Some (g0, g1)" "s = m' @ t'"
    "m' \<in> lang (Seq PRICE_PREFIX NUMBER)"
  shows "length m' \<le> length g0"
proof (rule match_at_longest[OF assms(1) _ assms(2,3)])
  fix u t u' t' l
  assume "ways PRICE_PREFIX NUMBER s = (u, t) # l" "(u', t') \<in> set (ways PRICE_PREFIX NUMBER s)"
  with ways_PRICE show "length t \<le> length t'" by (rule ways_NUMBER_shortest)
qed

lemma longest_STOCK:
  assumes "match_at STOCK_PREFIX NUMBER s = Some (g0, g1)" "s = m' @ t'"
    "m' \<in> lang (Seq STOCK_PREFIX NUMBER)"
  shows "length m' \<le> length g0"
proof (rule match_at_longest[OF assms(1) _ assms(2,3)])
  fix u t u' t' l
  assume "ways STOCK_PREFIX NUMBER s = (u, t) # l" "(u', t') \<in> set (ways STOCK_PREFIX NUMBER s)"
  with ways_STOCK show "length t \<le> length t'" by (rule ways_NUMBER_shortest)
qed

lemma star_rests_shortest:
  assumes "star_rests p s = t # l" "t' \<in> set (star_rests p s)"
  shows "length t \<le> length t'"
proof -
  obtain l' where "alts (Star p) (\<lambda>t. [t]) s = [dropWhile p s] @ l'"
    using alts_Star_head[of p "\<lambda>t. [t]" s] by blast
  then have "star_rests p s = dropWhile p s # l'" by (simp add: alts_def)
  then have "t = dropWhile p s" using assms(1) by simp
  moreover obtain m where "s = m @ t'" "list_all p m"
    using assms(2) unfolding set_star_rests by blast
  ultimately show ?thesis using dropWhile_shortest by blast
qed

lemma rests_rep1:
  "rests (rep1 p) s = (case s of [] \<Rightarrow> [] | c # cs \<Rightarrow> if p c then star_rests p cs else [])"
  by (cases s) (simp_all add: rep1_def)

lemma longest_VERSION:
  assumes "match_at Eps PYTHON_VERSION_PATTERN s = Some (g0, g1)" "s = m' @ t'"
    "m' \<in> lang (Seq Eps PYTHON_VERSION_PATTERN)"
  shows "length m' \<le> length g0"
proof (rule match_at_longest[OF assms(1) _ assms(2,3)])
  fix u t u' t' l
  assume h: "ways Eps PYTHON_VERSION_PATTERN s = (u, t) # l"
    and m: "(u', t') \<in> set (ways Eps PYTHON_VERSION_PATTERN s)"
  from h obtain l' where r: "rests PYTHON_VERSION_PATTERN s = t # l'"
    unfolding ways_Eps by (cases "rests PYTHON_VERSION_PATTERN s") auto
  from m have m': "t' \<in> set (rests PYTHON_VERSION_PATTERN s)" unfolding ways_Eps by auto
  from r obtain v where v: "scan_version_prefix s = Some v" "rests (rep1 is_digit) v = t # l'"
    unfolding rests_VERSION by (cases "scan_version_prefix s") auto
  from v(2) obtain c cs where c: "v = c # cs" "is_digit c" "star_rests is_digit cs = t # l'"
    unfolding rests_rep1 by (cases v) (auto split: if_splits)
  have "t' \<in> set (star_rests is_digit cs)"
    using m' v(1) c(1,2) unfolding rests_VERSION rests_rep1 by simp
  with c(3) show "length t \<le> length t'" by (rule star_rests_shortest)
qed

subsection \<open>Facts for the extraction claims\<close>

lemma occurs_Seq_Eps: "occurs (Seq Eps g) text = occurs g text"
  by (simp add: occurs_def occurs_at_def)

lemma first_match_Seq_Eps: "first_match (Seq Eps g) text b m a = first_match g text b m a"
  by (simp add: first_match_def occurs_at_def)

lemma space_not_number_char: "is_digit_or_comma c \<Longrightarrow> c \<noteq> CHR '' ''"
  by (auto simp: is_digit_or_comma_def is_digit_def)

lemma remove_spaces_number:
  assumes "m \<in> lang NUMBER"
  shows "remove_spaces m = m"
proof -
  from assms obtain d run dec where m: "m = d # run @ dec" "is_digit d"
    "list_all is_digit_or_comma run" "dec = [] \<or> dec \<in> lang DECIMALS"
    unfolding lang_NUMBER by blast
  have "\<forall>c\<in>set dec. c \<noteq> CHR '' ''"
    using m(4) unfolding lang_decimals by (auto simp: is_digit_def)
  moreover have "\<forall>c\<in>set run. c \<noteq> CHR '' ''"
    using m(3) space_not_number_char by (auto simp: list_all_iff)
  moreover have "d \<noteq> CHR '' ''" using m(2) by (auto simp: is_digit_def)
  ultimately show ?thesis using m(1) by (simp add: remove_spaces_def filter_id_conv)
qed

lemma lang_PRICE_PREFIX:
  "pre \<in> lang PRICE_PREFIX \<longleftrightarrow> (\<exists>sym ws. pre = sym # ws \<and> is_currency sym \<and> list_all is_space ws)"
  unfolding PRICE_PREFIX_def lang_Cls_Seq lang_Star ..

lemma char_at_append: "char_at (before @ c # rest) (length before) = Inr c"
  by (simp add: char_at_def)

text \<open>What the price strategy returns, in both of its branches.\<close>

lemma extract_price_value_match:
  assumes "occurs PRICE_PATTERN text"
  shows "\<exists>before sym ws num after.
           first_match PRICE_PATTERN text before (sym # ws @ num) after
           \<and> is_currency sym \<and> list_all is_space ws \<and> num \<in> lang NUMBER
           \<and> extract_price_value text = Inr (sym # num)"
proof -
  from assms obtain k g0 g1 where s: "search PRICE_PREFIX NUMBER text = Some (k, g0, g1)"
    using search_None[of PRICE_PREFIX NUMBER "text"] unfolding PRICE_PATTERN_def
    by (cases "search PRICE_PREFIX NUMBER text") auto
  have "\<exists>before pre after. first_match (Seq PRICE_PREFIX NUMBER) text before (pre @ g1) after
           \<and> k = length before \<and> g0 = pre @ g1 \<and> pre \<in> lang PRICE_PREFIX \<and> g1 \<in> lang NUMBER"
    by (rule search_first_match[OF _ s]) (rule longest_PRICE)
  then obtain before pre after where f:
    "first_match (Seq PRICE_PREFIX NUMBER) text before (pre @ g1) after" "k = length before"
    "pre \<in> lang PRICE_PREFIX" "g1 \<in> lang NUMBER"
    by blast
  from f(3) obtain sym ws where p: "pre = sym # ws" "is_currency sym" "list_all is_space ws"
    unfolding lang_PRICE_PREFIX by blast
  have "text = before @ sym # (ws @ g1 @ after)"
    using f(1) p(1) by (simp add: first_match_def)
  then have "char_at text k = Inr sym" using f(2) char_at_append by metis
  then have "extract_price_value text = Inr (sym # g1)"
    using s remove_spaces_number[OF f(4)] by (simp add: extract_price_value_def)
  moreover have "first_match PRICE_PATTERN text before (sym # ws @ g1) after"
    using f(1) p(1) by (simp add: PRICE_PATTERN_def)
  ultimately show ?thesis using p(2,3) f(4) by blast
qed

lemma extract_price_value_fallback:
  "\<not> occurs PRICE_PATTERN text \<Longrightarrow> extract_price_value text = Inr (take 160 text)"
  using search_None[of PRICE_PREFIX NUMBER "text"]
  by (simp add: PRICE_PATTERN_def extract_price_value_def)

subsection \<open>Running the matcher on a given text\<close>

lemma occurs_search: "occurs (Seq r g) text \<longleftrightarrow> search r g text \<noteq> None"
  using search_None[of r g "text"] by simp

lemma occurs_search_Eps: "occurs g text \<longleftrightarrow> search Eps g text \<noteq> None"
  using occurs_search[of Eps g "text"] by (simp add: occurs_Seq_Eps)

lemma not_occurs_search: "\<not> occurs (Seq r g) text \<Longrightarrow> search r g text = None"
  by (simp add: search_None)

lemma not_occurs_search_Eps: "\<not> occurs g text \<Longrightarrow> search Eps g text = None"
  by (simp add: search_None occurs_Seq_Eps)

lemmas run_defs = search_def match_at_def ways_def
  NUMBER_def DECIMALS_def PRICE_PREFIX_def STOCK_PREFIX_def PYTHON_VERSION_PATTERN_def
  rep1_def lit_def lit_ci_def is_digit_def is_digit_or_comma_def is_space_def is_currency_def
  ascii_lower_def char_at_def remove_spaces_def remove_commas_def

lemma extract_version_match:
  assumes "occurs PYTHON_VERSION_PATTERN text"
  shows "\<exists>before m after. first_match PYTHON_VERSION_PATTERN text before m after
           \<and> search Eps PYTHON_VERSION_PATTERN text = Some (length before, m, m)"
proof -
  from assms obtain k g0 g1 where s: "search Eps PYTHON_VERSION_PATTERN text = Some (k, g0, g1)"
    unfolding occurs_search_Eps by auto
  have "\<exists>before pre after. first_match (Seq Eps PYTHON_VERSION_PATTERN) text before (pre @ g1) after
           \<and> k = length before \<and> g0 = pre @ g1 \<and> pre \<in> lang Eps \<and> g1 \<in> lang PYTHON_VERSION_PATTERN"
    by (rule search_first_match[OF _ s]) (rule longest_VERSION)
  then obtain before pre after where f:
    "first_match (Seq Eps PYTHON_VERSION_PATTERN) text before (pre @ g1) after"
    "k = length before" "g0 = pre @ g1" "pre \<in> lang Eps"
    by blast
  from f(4) have "pre = []" by simp
  then have "first_match PYTHON_VERSION_PATTERN text before g1 after" "g0 = g1"
    using f(1,3) by (simp_all add: first_match_Seq_Eps)
  then show ?thesis using s f(2) by blast
qed

lemma extract_stock_match:
  assumes "occurs STOCK_PREV_CLOSE_PATTERN text"
  shows "\<exists>before pre num after.
           first_match STOCK_PREV_CLOSE_PATTERN text before (pre @ num) after
           \<and> pre \<in> lang STOCK_PREFIX \<and> num \<in> lang NUMBER
           \<and> extract_stock_price_value text = Inr (CHR ''$'' # num)"
proof -
  from assms obtain k g0 g1 where s: "search STOCK_PREFIX NUMBER text = Some (k, g0, g1)"
    unfolding STOCK_PREV_CLOSE_PATTERN_def occurs_search by auto
  have "\<exists>before pre after. first_match (Seq STOCK_PREFIX NUMBER) text before (pre @ g1) after
           \<and> k = length before \<and> g0 = pre @ g1 \<and> pre \<in> lang STOCK_PREFIX \<and> g1 \<in> lang NUMBER"
    by (rule search_first_match[OF _ s]) (rule longest_STOCK)
  then obtain before pre after where f:
    "first_match (Seq STOCK_PREFIX NUMBER) text before (pre @ g1) after"
    "pre \<in> lang STOCK_PREFIX" "g1 \<in> lang NUMBER"
    by blast
  have "extract_stock_price_value text = Inr (CHR ''$'' # g1)"
    using s remove_spaces_number[OF f(3)] by (simp add: extract_stock_price_value_def)
  then show ?thesis using f unfolding STOCK_PREV_CLOSE_PATTERN_def by blast
qed

lemma extract_stock_no_match:
  "\<not> occurs STOCK_PREV_CLOSE_PATTERN text \<Longrightarrow> extract_stock_price_value text = extract_price_value text"
  unfolding STOCK_PREV_CLOSE_PATTERN_def
  by (simp add: extract_stock_price_value_def not_occurs_search)

section \<open>The extraction claims\<close>

text \<open>
  C2, as the code has it. With the kind \<^verbatim>\<open>price\<close>, when the price pattern occurs in the
  text the result is the currency symbol of its leftmost (and there longest) match
  followed by the matched number exactly as the text spells it: whitespace between
  symbol and number is dropped, commas are kept. When the pattern occurs nowhere the
  result is the first 160 characters of the text. On \<^verbatim>\<open>Price: $19.99 today\<close> the
  result is \<^verbatim>\<open>$19.99\<close>.
\<close>

theorem C2_price_strategy:
  assumes "value_type site = ''price''"
  shows "(occurs PRICE_PATTERN text \<longrightarrow>
            (\<exists>before sym ws num after.
               first_match PRICE_PATTERN text before (sym # ws @ num) after
               \<and> is_currency sym \<and> list_all is_space ws \<and> num \<in> lang NUMBER
               \<and> extract_value site text = Inr (sym # num)))
       \<and> (\<not> occurs PRICE_PATTERN text \<longrightarrow> extract_value site text = Inr (take 160 text))
       \<and> extract_value site ''Price: $19.99 today'' = Inr ''$19.99''"
proof -
  have e: "extract_value site t = extract_price_value t" for t
    using assms by (simp add: extract_value_def)
  have "extract_price_value ''Price: $19.99 today'' = Inr ''$19.99''"
    by (simp add: extract_price_value_def run_defs)
  then show ?thesis
    unfolding e using extract_price_value_match[of "text"] extract_price_value_fallback[of "text"]
    by blast
qed

theorem C2_price_strategy_witness:
  "value_type book_demo = ''price''
   \<and> occurs PRICE_PATTERN ''In stock $ 1,051.77''
   \<and> (\<exists>before sym ws num after.
         first_match PRICE_PATTERN ''In stock $ 1,051.77'' before (sym # ws @ num) after
         \<and> is_currency sym \<and> list_all is_space ws \<and> num \<in> lang NUMBER
         \<and> extract_value book_demo ''In stock $ 1,051.77'' = Inr (sym # num))
   \<and> \<not> occurs PRICE_PATTERN ''In stock''
   \<and> extract_value book_demo ''In stock'' = Inr (take 160 ''In stock'')"
proof -
  have v: "value_type book_demo = ''price''" by (simp add: book_demo_def)
  have o: "occurs PRICE_PATTERN ''In stock $ 1,051.77''"
    unfolding PRICE_PATTERN_def occurs_search by (simp add: run_defs)
  have n: "\<not> occurs PRICE_PATTERN ''In stock''"
    unfolding PRICE_PATTERN_def occurs_search by (simp add: run_defs)
  show ?thesis
    using C2_price_strategy[OF v, of "''In stock $ 1,051.77''"]
      C2_price_strategy[OF v, of "''In stock''"] v o n
    by blast
qed

text \<open>
  C2 as the specification words it fails: the commas of the matched number are not
  removed.
\<close>

theorem C2_commas_counterexample:
  "extract_value book_demo ''Price: $1,234.50 today'' = Inr ''$1,234.50''
   \<and> extract_value book_demo ''Price: $1,234.50 today'' \<noteq> Inr ''$1234.50''"
  by (simp add: extract_value_def book_demo_def extract_price_value_def run_defs)

text \<open>
  C3, as the code has it. Whenever a strategy takes its fallback path, which the kinds
  \<^verbatim>\<open>title\<close>, \<^verbatim>\<open>text\<close> and every unknown kind always do, the result is the first 160
  characters of the text: at most 160 characters, and exactly 160 when the text is
  longer.
\<close>

theorem C3_fallback_bound:
  "(fallback site text \<longrightarrow>
      (\<exists>v. extract_value site text = Inr v \<and> v = take 160 text \<and> length v \<le> 160
          \<and> (160 < length text \<longrightarrow> length v = 160)))
   \<and> (value_type site \<noteq> ''stock_price'' \<and> value_type site \<noteq> ''price''
        \<and> value_type site \<noteq> ''version'' \<longrightarrow> fallback site text)"
proof -
  have "extract_value site text = Inr (take 160 text)" if "fallback site text"
    using that extract_stock_no_match[of "text"] extract_price_value_fallback[of "text"]
      not_occurs_search_Eps[of PYTHON_VERSION_PATTERN "text"]
    by (auto simp: fallback_def extract_value_def split: if_splits)
  then show ?thesis by (auto simp: fallback_def)
qed

theorem C3_fallback_bound_witness:
  "fallback nasa_apod (replicate 200 CHR ''x'')
   \<and> (\<exists>v. extract_value nasa_apod (replicate 200 CHR ''x'') = Inr v
          \<and> v = take 160 (replicate 200 CHR ''x'') \<and> length v \<le> 160
          \<and> (160 < length (replicate 200 CHR ''x'') \<longrightarrow> length v = 160))"
proof -
  have f: "fallback nasa_apod (replicate 200 CHR ''x'')"
    by (simp add: fallback_def nasa_apod_def)
  show ?thesis
    using C3_fallback_bound[of nasa_apod "replicate 200 CHR ''x''"] f by blast
qed

text \<open>
  C3 as the specification words it fails: a value that comes from a pattern match is
  not capped. A price of 200 digits is returned whole, 201 characters long.
\<close>

theorem C3_uncapped_counterexample:
  "extract_value book_demo (CHR ''$'' # replicate 200 CHR ''7'') = Inr (CHR ''$'' # replicate 200 CHR ''7'')
   \<and> length (CHR ''$'' # replicate 200 CHR ''7'') = 201"
  by code_simp

text \<open>
  C4. With the kind \<^verbatim>\<open>stock_price\<close>: when the phrase pattern (the words
  \<^verbatim>\<open>Previous\<close> and \<^verbatim>\<open>close\<close> in any letter case, each followed by whitespace, then a
  number) occurs in the text, the result is a dollar sign followed by the number of
  its leftmost match; when it does not occur, the result is that of the price strategy;
  when the price pattern does not occur either, it is the first 160 characters of the
  text. On a text containing \<^verbatim>\<open>Previous close 417.20\<close> the result is \<^verbatim>\<open>$417.20\<close>.
\<close>

theorem C4_stock_price_strategy:
  assumes "value_type site = ''stock_price''"
  shows "(occurs STOCK_PREV_CLOSE_PATTERN text \<longrightarrow>
            (\<exists>before pre num after.
               first_match STOCK_PREV_CLOSE_PATTERN text before (pre @ num) after
               \<and> pre \<in> lang STOCK_PREFIX \<and> num \<in> lang NUMBER
               \<and> extract_value site text = Inr (CHR ''$'' # num)))
       \<and> (\<not> occurs STOCK_PREV_CLOSE_PATTERN text \<longrightarrow>
            (\<forall>site'. value_type site' = ''price'' \<longrightarrow> extract_value site text = extract_value site' text))
       \<and> (\<not> occurs STOCK_PREV_CLOSE_PATTERN text \<and> \<not> occurs PRICE_PATTERN text \<longrightarrow>
            extract_value site text = Inr (take 160 text))
       \<and> extract_value site ''MSFT 420.55 Previous close 417.20 Open 418.00'' = Inr ''$417.20''"
proof -
  have e: "extract_value site t = extract_stock_price_value t" for t
    using assms by (simp add: extract_value_def)
  have p: "extract_value site' t = extract_price_value t" if "value_type site' = ''price''" for site' t
    using that by (simp add: extract_value_def)
  have "extract_stock_price_value ''MSFT 420.55 Previous close 417.20 Open 418.00'' = Inr ''$417.20''"
    by (simp add: extract_stock_price_value_def run_defs)
  then show ?thesis
    unfolding e using extract_stock_match[of "text"] extract_stock_no_match[of "text"]
      extract_price_value_fallback[of "text"] p
    by auto
qed

theorem C4_stock_price_strategy_witness:
  "value_type stock_msft = ''stock_price''
   \<and> occurs STOCK_PREV_CLOSE_PATTERN ''PREVIOUS  Close 1,417.20''
   \<and> (\<exists>before pre num after.
         first_match STOCK_PREV_CLOSE_PATTERN ''PREVIOUS  Close 1,417.20'' before (pre @ num) after
         \<and> pre \<in> lang STOCK_PREFIX \<and> num \<in> lang NUMBER
         \<and> extract_value stock_msft ''PREVIOUS  Close 1,417.20'' = Inr (CHR ''$'' # num))
   \<and> \<not> occurs STOCK_PREV_CLOSE_PATTERN ''Close at $5''
   \<and> value_type book_demo = ''price''
   \<and> extract_value stock_msft ''Close at $5'' = extract_value book_demo ''Close at $5''
   \<and> \<not> occurs STOCK_PREV_CLOSE_PATTERN ''Market closed'' \<and> \<not> occurs PRICE_PATTERN ''Market closed''
   \<and> extract_value stock_msft ''Market closed'' = Inr (take 160 ''Market closed'')"
proof -
  have v: "value_type stock_msft = ''stock_price''" by (simp add: stock_msft_def)
  have b: "value_type book_demo = ''price''" by (simp add: book_demo_def)
  have o: "occurs STOCK_PREV_CLOSE_PATTERN ''PREVIOUS  Close 1,417.20''"
    unfolding STOCK_PREV_CLOSE_PATTERN_def occurs_search by (simp add: run_defs)
  have n1: "\<not> occurs STOCK_PREV_CLOSE_PATTERN ''Close at $5''"
    unfolding STOCK_PREV_CLOSE_PATTERN_def occurs_search by (simp add: run_defs)
  have n2: "\<not> occurs STOCK_PREV_CLOSE_PATTERN ''Market closed''"
    unfolding STOCK_PREV_CLOSE_PATTERN_def occurs_search by (simp add: run_defs)
  have n3: "\<not> occurs PRICE_PATTERN ''Market closed''"
    unfolding PRICE_PATTERN_def occurs_search by (simp add: run_defs)
  show ?thesis
    using C4_stock_price_strategy[OF v, of "''PREVIOUS  Close 1,417.20''"]
      C4_stock_price_strategy[OF v, of "''Close at $5''"]
      C4_stock_price_strategy[OF v, of "''Market closed''"] v b o n1 n2 n3
    by blast
qed

text \<open>
  C8. With the kind \<^verbatim>\<open>version\<close>: when the pattern \<^verbatim>\<open>Python\<close>, whitespace, \<^verbatim>\<open>3.\<close>,
  digits, a dot, digits occurs in the text, the result is exactly its leftmost match,
  the longest one at that position; when it occurs nowhere, the result is the first
  160 characters of the text. On \<^verbatim>\<open>Download Python 3.13.2 now\<close> the result is
  \<^verbatim>\<open>Python 3.13.2\<close>.
\<close>

theorem C8_version_strategy:
  assumes "value_type site = ''version''"
  shows "(occurs PYTHON_VERSION_PATTERN text \<longrightarrow>
            (\<exists>before m after. first_match PYTHON_VERSION_PATTERN text before m after
               \<and> extract_value site text = Inr m))
       \<and> (\<not> occurs PYTHON_VERSION_PATTERN text \<longrightarrow> extract_value site text = Inr (take 160 text))
       \<and> extract_value site ''Download Python 3.13.2 now'' = Inr ''Python 3.13.2''"
proof -
  have e: "extract_value site t =
             (case search Eps PYTHON_VERSION_PATTERN t of
                Some (start, g0, g1) \<Rightarrow> Inr g0 | None \<Rightarrow> Inr (take 160 t))" for t
    using assms by (simp add: extract_value_def)
  have 1: "\<exists>before m after. first_match PYTHON_VERSION_PATTERN text before m after
             \<and> extract_value site text = Inr m" if "occurs PYTHON_VERSION_PATTERN text"
    using extract_version_match[OF that] unfolding e by force
  have 2: "extract_value site text = Inr (take 160 text)" if "\<not> occurs PYTHON_VERSION_PATTERN text"
    using not_occurs_search_Eps[OF that] unfolding e by simp
  have 3: "extract_value site ''Download Python 3.13.2 now'' = Inr ''Python 3.13.2''"
    unfolding e by (simp add: run_defs)
  show ?thesis using 1 2 3 by blast
qed

theorem C8_version_strategy_witness:
  "value_type python_release = ''version''
   \<and> occurs PYTHON_VERSION_PATTERN ''Latest: Python  3.13.25rc1''
   \<and> (\<exists>before m after. first_match PYTHON_VERSION_PATTERN ''Latest: Python  3.13.25rc1'' before m after
         \<and> extract_value python_release ''Latest: Python  3.13.25rc1'' = Inr m)
   \<and> \<not> occurs PYTHON_VERSION_PATTERN ''Python 2.7.18''
   \<and> extract_value python_release ''Python 2.7.18'' = Inr (take 160 ''Python 2.7.18'')"
proof -
  have v: "value_type python_release = ''version''" by (simp add: python_release_def)
  have o: "occurs PYTHON_VERSION_PATTERN ''Latest: Python  3.13.25rc1''"
    unfolding occurs_search_Eps by (simp add: run_defs)
  have n: "\<not> occurs PYTHON_VERSION_PATTERN ''Python 2.7.18''"
    unfolding occurs_search_Eps by (simp add: run_defs)
  show ?thesis
    using C8_version_strategy[OF v, of "''Latest: Python  3.13.25rc1''"]
      C8_version_strategy[OF v, of "''Python 2.7.18''"] v o n
    by blast
qed

section \<open>Configuration parsing\<close>

lemma make_site_well_formed: "well_formed e \<Longrightarrow> make_site e = Inr (site_of_entry e)"
  by (auto simp: well_formed_def make_site_def getitem_def get_default_def site_of_entry_def
           split: option.splits)

lemma make_site_malformed: "\<not> well_formed e \<Longrightarrow> make_site e = Inl (KeyError (missing_key e))"
  by (auto simp: well_formed_def make_site_def getitem_def missing_key_def split: option.splits)

lemma site_loop_result:
  "site_loop idx raw sites warnings =
     Inr (sites @ map site_of_entry (filter well_formed raw),
          warnings @ map (\<lambda>(i, e). (i, missing_key e))
                       (filter (\<lambda>(i, e). \<not> well_formed e) (enumerate idx raw)))"
proof (induction raw arbitrary: idx sites warnings)
  case Nil
  then show ?case by simp
next
  case (Cons e raw)
  show ?case
  proof (cases "well_formed e")
    case True
    then show ?thesis using Cons.IH by (simp add: make_site_well_formed)
  next
    case False
    then show ?thesis using Cons.IH by (simp add: make_site_malformed)
  qed
qed

text \<open>
  C7. Parsing never aborts: it returns the sites of the entries that have both an id
  and a url, in input order, each with the defaults for its absent optional fields,
  and one warning per entry that lacks an id or a url, carrying the position of that
  entry and the key it lacks.
\<close>

theorem C7_to_site_configs:
  "to_site_configs raw =
     Inr (map site_of_entry (filter well_formed raw),
          map (\<lambda>(i, e). (i, missing_key e))
              (filter (\<lambda>(i, e). \<not> well_formed e) (enumerate 0 raw)))"
  by (simp add: to_site_configs_def site_loop_result)

theorem C7_to_site_configs_witness:
  "to_site_configs
     [\<lparr>r_id = Some ''a'', r_url = Some ''http://a'', r_description = None, r_css_selector = None,
       r_normalize_whitespace = None, r_value_type = None\<rparr>,
      \<lparr>r_id = Some ''b'', r_url = None, r_description = Some ''no url'', r_css_selector = None,
       r_normalize_whitespace = None, r_value_type = None\<rparr>,
      \<lparr>r_id = None, r_url = Some ''http://c'', r_description = None, r_css_selector = None,
       r_normalize_whitespace = None, r_value_type = None\<rparr>,
      \<lparr>r_id = Some ''d'', r_url = Some ''http://d'', r_description = Some ''D'',
       r_css_selector = Some (Some ''.x''), r_normalize_whitespace = Some False,
       r_value_type = Some ''price''\<rparr>]
   = Inr ([\<lparr>site_id = ''a'', url = ''http://a'', description = ''a'', css_selector = None,
            normalize_whitespace = True, value_type = ''text''\<rparr>,
           \<lparr>site_id = ''d'', url = ''http://d'', description = ''D'', css_selector = Some ''.x'',
            normalize_whitespace = False, value_type = ''price''\<rparr>],
          [(1, ''url''), (2, ''id'')])"
  unfolding C7_to_site_configs
  by (simp add: well_formed_def site_of_entry_def missing_key_def enumerate_eq_zip upt_rec)

section \<open>The change ledger\<close>

subsection \<open>One observation\<close>

lemma observe_absent:
  assumes "map_of (state p) (site_id site) = None"
  shows "observe h site v p =
           Inr (p\<lparr>state := AList.update (site_id site) [(''hash'', h v), (''value'', v)] (state p),
                  events := events p @ [Baseline (site_id site) v]\<rparr>)"
  using assms by (simp add: observe_def previous_hash_of_def)

lemma observe_empty:
  assumes "map_of (state p) (site_id site) = Some []"
  shows "observe h site v p =
           Inr (p\<lparr>state := AList.update (site_id site) [(''hash'', h v), (''value'', v)] (state p),
                  events := events p @ [Baseline (site_id site) v]\<rparr>)"
  using assms by (simp add: observe_def previous_hash_of_def)

lemma observe_same:
  assumes "map_of (state p) (site_id site) = Some d" "map_of d ''hash'' = Some (h v)"
  shows "observe h site v p = Inr (p\<lparr>events := events p @ [Unchanged (site_id site) v]\<rparr>)"
proof -
  have "d \<noteq> []" using assms(2) by auto
  then show ?thesis using assms by (simp add: observe_def previous_hash_of_def)
qed

lemma observe_changed:
  assumes "map_of (state p) (site_id site) = Some d" "map_of d ''hash'' = Some hs"
    "h v \<noteq> hs" "map_of d ''value'' = Some old"
  shows "observe h site v p =
           Inr (p\<lparr>state := AList.update (site_id site)
                     (AList.update ''value'' v (AList.update ''hash'' (h v) d)) (state p),
                  any_changes := True,
                  events := events p @ [Changed (site_id site) old v]\<rparr>)"
proof -
  have "d \<noteq> []" using assms(2) by auto
  then show ?thesis using assms by (simp add: observe_def previous_hash_of_def previous_value_of_def)
qed

lemma update_keys_in_place: "k \<in> fst ` set al \<Longrightarrow> map fst (AList.update k v al) = map fst al"
  by (simp add: update_keys)

lemma map_of_in_keys: "map_of al k = Some v \<Longrightarrow> k \<in> fst ` set al"
  by (simp add: map_of_eq_Some_iff weak_map_of_SomeI domI dom_map_of_conv_image_fst[symmetric])

text \<open>
  C1. Observing a value for a site id, with \<open>h\<close> the hash function. If the ledger has no
  entry for the id, the entry with this value and its hash is inserted and Baseline is
  reported. If the stored hash differs from the hash of the new value, the value and
  the hash of that entry are replaced, the entry keeping its place in the ledger, and
  Changed is reported. If the stored hash is the hash of the new value, Unchanged is
  reported and the ledger is left as it is. In the first two cases no other entry is
  touched. So observing the same value twice for an id that has no entry, as in an
  empty ledger, reports Baseline and then Unchanged.
\<close>

theorem C1_observe:
  "(map_of (state p) (site_id site) = None \<longrightarrow>
      (\<exists>p'. observe h site v p = Inr p'
         \<and> map_of (state p') (site_id site) = Some [(''hash'', h v), (''value'', v)]
         \<and> (\<forall>k. k \<noteq> site_id site \<longrightarrow> map_of (state p') k = map_of (state p) k)
         \<and> events p' = events p @ [Baseline (site_id site) v]
         \<and> any_changes p' = any_changes p))
   \<and> (\<forall>d hs old. map_of (state p) (site_id site) = Some d \<and> map_of d ''hash'' = Some hs
         \<and> map_of d ''value'' = Some old \<and> h v \<noteq> hs \<longrightarrow>
      (\<exists>p' d'. observe h site v p = Inr p'
         \<and> map_of (state p') (site_id site) = Some d'
         \<and> map_of d' = (map_of d)(''hash'' \<mapsto> h v, ''value'' \<mapsto> v)
         \<and> map fst (state p') = map fst (state p)
         \<and> (\<forall>k. k \<noteq> site_id site \<longrightarrow> map_of (state p') k = map_of (state p) k)
         \<and> events p' = events p @ [Changed (site_id site) old v]))
   \<and> (\<forall>d. map_of (state p) (site_id site) = Some d \<and> map_of d ''hash'' = Some (h v) \<longrightarrow>
      (\<exists>p'. observe h site v p = Inr p' \<and> state p' = state p
         \<and> events p' = events p @ [Unchanged (site_id site) v]
         \<and> any_changes p' = any_changes p))
   \<and> (map_of (state p) (site_id site) = None \<longrightarrow>
      (\<exists>p1 p2. observe h site v p = Inr p1 \<and> observe h site v p1 = Inr p2
         \<and> events p2 = events p @ [Baseline (site_id site) v, Unchanged (site_id site) v]
         \<and> state p2 = state p1))"
proof (intro conjI impI allI)
  assume a: "map_of (state p) (site_id site) = None"
  let ?p1 = "p\<lparr>state := AList.update (site_id site) [(''hash'', h v), (''value'', v)] (state p),
               events := events p @ [Baseline (site_id site) v]\<rparr>"
  have 1: "observe h site v p = Inr ?p1" using a by (rule observe_absent)
  have m: "map_of (state ?p1) (site_id site) = Some [(''hash'', h v), (''value'', v)]"
    by (simp add: update_conv')
  show "\<exists>p'. observe h site v p = Inr p'
         \<and> map_of (state p') (site_id site) = Some [(''hash'', h v), (''value'', v)]
         \<and> (\<forall>k. k \<noteq> site_id site \<longrightarrow> map_of (state p') k = map_of (state p) k)
         \<and> events p' = events p @ [Baseline (site_id site) v]
         \<and> any_changes p' = any_changes p"
    using 1 by (intro exI[of _ ?p1]) (simp add: update_conv')
  have 2: "observe h site v ?p1 = Inr (?p1\<lparr>events := events ?p1 @ [Unchanged (site_id site) v]\<rparr>)"
    using m by (rule observe_same) simp
  show "\<exists>p1 p2. observe h site v p = Inr p1 \<and> observe h site v p1 = Inr p2
         \<and> events p2 = events p @ [Baseline (site_id site) v, Unchanged (site_id site) v]
         \<and> state p2 = state p1"
    using 1 2 by (intro exI[of _ ?p1] exI[of _ "?p1\<lparr>events := events ?p1 @ [Unchanged (site_id site) v]\<rparr>"]) simp
next
  fix d hs old
  assume a: "map_of (state p) (site_id site) = Some d \<and> map_of d ''hash'' = Some hs
         \<and> map_of d ''value'' = Some old \<and> h v \<noteq> hs"
  let ?d' = "AList.update ''value'' v (AList.update ''hash'' (h v) d)"
  let ?p' = "p\<lparr>state := AList.update (site_id site) ?d' (state p), any_changes := True,
               events := events p @ [Changed (site_id site) old v]\<rparr>"
  have 1: "observe h site v p = Inr ?p'" using a by (intro observe_changed) auto
  have k: "site_id site \<in> fst ` set (state p)" using a map_of_in_keys by metis
  show "\<exists>p' d'. observe h site v p = Inr p'
         \<and> map_of (state p') (site_id site) = Some d'
         \<and> map_of d' = (map_of d)(''hash'' \<mapsto> h v, ''value'' \<mapsto> v)
         \<and> map fst (state p') = map fst (state p)
         \<and> (\<forall>k. k \<noteq> site_id site \<longrightarrow> map_of (state p') k = map_of (state p) k)
         \<and> events p' = events p @ [Changed (site_id site) old v]"
    using 1 k by (intro exI[of _ ?p'] exI[of _ ?d']) (simp add: update_conv' update_keys_in_place)
next
  fix d
  assume a: "map_of (state p) (site_id site) = Some d \<and> map_of d ''hash'' = Some (h v)"
  then have "observe h site v p = Inr (p\<lparr>events := events p @ [Unchanged (site_id site) v]\<rparr>)"
    by (intro observe_same) auto
  then show "\<exists>p'. observe h site v p = Inr p' \<and> state p' = state p
         \<and> events p' = events p @ [Unchanged (site_id site) v]
         \<and> any_changes p' = any_changes p"
    by simp
qed

theorem C1_observe_witness:
  "(map_of (state \<lparr>state = [], any_changes = False, events = []\<rparr>) (site_id book_demo) = None
    \<and> (\<exists>p1 p2. observe rev book_demo ''$51.77'' \<lparr>state = [], any_changes = False, events = []\<rparr> = Inr p1
          \<and> observe rev book_demo ''$51.77'' p1 = Inr p2
          \<and> events p2 = events \<lparr>state = [], any_changes = False, events = []\<rparr>
               @ [Baseline (site_id book_demo) ''$51.77'', Unchanged (site_id book_demo) ''$51.77'']
          \<and> state p2 = state p1))
   \<and> (map_of (state \<lparr>state = [(''book_demo'', [(''hash'', ''00.05$''), (''value'', ''$50.00'')])],
                      any_changes = False, events = []\<rparr>) (site_id book_demo)
         = Some [(''hash'', ''00.05$''), (''value'', ''$50.00'')]
       \<and> map_of [(''hash'', ''00.05$''), (''value'', ''$50.00'')] ''hash'' = Some ''00.05$''
       \<and> map_of [(''hash'', ''00.05$''), (''value'', ''$50.00'')] ''value'' = Some ''$50.00''
       \<and> rev ''$51.77'' \<noteq> ''00.05$'')
   \<and> (\<exists>p' d'. observe rev book_demo ''$51.77''
               \<lparr>state = [(''book_demo'', [(''hash'', ''00.05$''), (''value'', ''$50.00'')])],
                any_changes = False, events = []\<rparr> = Inr p'
          \<and> map_of (state p') (site_id book_demo) = Some d'
          \<and> map_of d' = (map_of [(''hash'', ''00.05$''), (''value'', ''$50.00'')])
                           (''hash'' \<mapsto> rev ''$51.77'', ''value'' \<mapsto> ''$51.77'')
          \<and> map fst (state p') = [''book_demo'']
          \<and> events p' = [Changed (site_id book_demo) ''$50.00'' ''$51.77''])
   \<and> (map_of (state \<lparr>state = [(''book_demo'', [(''hash'', ''00.05$''), (''value'', ''$50.00'')])],
                      any_changes = False, events = []\<rparr>) (site_id book_demo)
         = Some [(''hash'', ''00.05$''), (''value'', ''$50.00'')]
       \<and> map_of [(''hash'', ''00.05$''), (''value'', ''$50.00'')] ''hash'' = Some (rev ''$50.00''))
   \<and> (\<exists>p'. observe rev book_demo ''$50.00''
               \<lparr>state = [(''book_demo'', [(''hash'', ''00.05$''), (''value'', ''$50.00'')])],
                any_changes = False, events = []\<rparr> = Inr p'
          \<and> state p' = [(''book_demo'', [(''hash'', ''00.05$''), (''value'', ''$50.00'')])]
          \<and> events p' = [Unchanged (site_id book_demo) ''$50.00''])"
proof -
  let ?emp = "\<lparr>state = [], any_changes = False, events = []\<rparr> :: pass"
  let ?d = "[(''hash'', ''00.05$''), (''value'', ''$50.00'')]"
  let ?led = "\<lparr>state = [(''book_demo'', ?d)], any_changes = False, events = []\<rparr> :: pass"
  have a: "map_of (state ?emp) (site_id book_demo) = None" by simp
  have b: "map_of (state ?led) (site_id book_demo) = Some ?d \<and> map_of ?d ''hash'' = Some ''00.05$''
           \<and> map_of ?d ''value'' = Some ''$50.00'' \<and> rev ''$51.77'' \<noteq> ''00.05$''"
    by (simp add: book_demo_def)
  have c: "map_of (state ?led) (site_id book_demo) = Some ?d \<and> map_of ?d ''hash'' = Some (rev ''$50.00'')"
    by (simp add: book_demo_def)
  note t0 = C1_observe[of ?emp book_demo rev "''$51.77''"]
  note t1 = C1_observe[of ?led book_demo rev "''$51.77''"]
  note t2 = C1_observe[of ?led book_demo rev "''$50.00''"]
  from t0 a have A: "\<exists>p1 p2. observe rev book_demo ''$51.77'' ?emp = Inr p1
          \<and> observe rev book_demo ''$51.77'' p1 = Inr p2
          \<and> events p2 = events ?emp
               @ [Baseline (site_id book_demo) ''$51.77'', Unchanged (site_id book_demo) ''$51.77'']
          \<and> state p2 = state p1"
    by (elim conjE) (erule mp, assumption)
  from t1[THEN conjunct2, THEN conjunct1, rule_format, OF b]
  obtain p' d' where B: "observe rev book_demo ''$51.77'' ?led = Inr p'"
    "map_of (state p') (site_id book_demo) = Some d'"
    "map_of d' = (map_of ?d)(''hash'' \<mapsto> rev ''$51.77'', ''value'' \<mapsto> ''$51.77'')"
    "map fst (state p') = map fst (state ?led)"
    "events p' = events ?led @ [Changed (site_id book_demo) ''$50.00'' ''$51.77'']"
    by blast
  from t2[THEN conjunct2, THEN conjunct2, THEN conjunct1, rule_format, OF c]
  obtain q where C: "observe rev book_demo ''$50.00'' ?led = Inr q" "state q = state ?led"
    "events q = events ?led @ [Unchanged (site_id book_demo) ''$50.00'']"
    by blast
  have B': "\<exists>p' d'. observe rev book_demo ''$51.77'' ?led = Inr p'
          \<and> map_of (state p') (site_id book_demo) = Some d'
          \<and> map_of d' = (map_of ?d)(''hash'' \<mapsto> rev ''$51.77'', ''value'' \<mapsto> ''$51.77'')
          \<and> map fst (state p') = [''book_demo'']
          \<and> events p' = [Changed (site_id book_demo) ''$50.00'' ''$51.77'']"
    using B by (intro exI[of _ p'] exI[of _ d']) simp
  have C': "\<exists>p'. observe rev book_demo ''$50.00'' ?led = Inr p'
          \<and> state p' = [(''book_demo'', ?d)]
          \<and> events p' = [Unchanged (site_id book_demo) ''$50.00'']"
    using C by (intro exI[of _ q]) simp
  show ?thesis
    by (rule conjI[OF conjI[OF a A] conjI[OF b conjI[OF B' conjI[OF c C']]]])
qed

subsection \<open>One site of the loop\<close>

lemma observe_any_changes:
  assumes "observe h site v p = Inr p'"
  shows "any_changes p' \<longleftrightarrow>
           any_changes p \<or> (\<exists>d hs. map_of (state p) (site_id site) = Some d
                                 \<and> map_of d ''hash'' = Some hs \<and> h v \<noteq> hs)"
  using assms
  by (auto simp: observe_def previous_hash_of_def Let_def
           split: option.splits sum.splits if_splits)

lemma observe_events:
  assumes "observe h site v p = Inr p'"
  shows "\<exists>ev. events p' = events p @ [ev]
           \<and> ((\<exists>sid old new. ev = Changed sid old new) \<longrightarrow> any_changes p')
           \<and> (\<not> (\<exists>sid old new. ev = Changed sid old new) \<longrightarrow> any_changes p' = any_changes p)"
  using assms
  by (auto simp: observe_def previous_hash_of_def Let_def
           split: option.splits sum.splits if_splits)

lemma run_site_any_changes:
  assumes "run_site h x p = Inr p'"
  shows "any_changes p' \<longleftrightarrow>
           any_changes p \<or> (\<exists>site raw_text v d hs. x = (site, Some raw_text)
              \<and> extract_value site raw_text = Inr v
              \<and> map_of (state p) (site_id site) = Some d
              \<and> map_of d ''hash'' = Some hs \<and> h v \<noteq> hs)"
proof (cases x)
  case (Pair site fetched)
  show ?thesis
  proof (cases fetched)
    case None
    then show ?thesis using assms Pair by (auto simp: run_site_def)
  next
    case (Some raw_text)
    then obtain v where v: "extract_value site raw_text = Inr v" "observe h site v p = Inr p'"
      using assms Pair by (auto simp: run_site_def split: sum.splits)
    show ?thesis using observe_any_changes[OF v(2)] v(1) Pair Some by auto
  qed
qed

lemma run_site_events:
  assumes "run_site h x p = Inr p'"
  shows "\<exists>ev. events p' = events p @ [ev]
           \<and> ((\<exists>sid old new. ev = Changed sid old new) \<longrightarrow> any_changes p')
           \<and> (\<not> (\<exists>sid old new. ev = Changed sid old new) \<longrightarrow> any_changes p' = any_changes p)"
proof (cases x)
  case (Pair site fetched)
  show ?thesis
  proof (cases fetched)
    case None
    then show ?thesis using assms Pair by (auto simp: run_site_def)
  next
    case (Some raw_text)
    then obtain v where "observe h site v p = Inr p'"
      using assms Pair by (auto simp: run_site_def split: sum.splits)
    then show ?thesis by (rule observe_events)
  qed
qed

subsection \<open>The loop\<close>

lemma observed_change_0:
  "observed_change h (x # rest) p 0 \<longleftrightarrow>
     (\<exists>site raw_text v d hs. x = (site, Some raw_text) \<and> extract_value site raw_text = Inr v
        \<and> map_of (state p) (site_id site) = Some d \<and> map_of d ''hash'' = Some hs \<and> h v \<noteq> hs)"
  by (auto simp: observed_change_def)

lemma observed_change_Suc:
  assumes "run_site h x p = Inr p1"
  shows "observed_change h (x # rest) p (Suc i) \<longleftrightarrow> observed_change h rest p1 i"
  using assms by (simp add: observed_change_def)

lemma observed_change_Suc_fail:
  assumes "run_site h x p = Inl e"
  shows "\<not> observed_change h (x # rest) p (Suc i)"
  using assms by (simp add: observed_change_def)

lemma run_sites_any_changes:
  assumes "run_sites h inputs p = Inr p'"
  shows "any_changes p' \<longleftrightarrow> any_changes p \<or> (\<exists>i. observed_change h inputs p i)"
  using assms
proof (induction inputs arbitrary: p)
  case Nil
  then show ?case by (simp add: observed_change_def)
next
  case (Cons x rest)
  then obtain p1 where p1: "run_site h x p = Inr p1" "run_sites h rest p1 = Inr p'"
    by (auto split: sum.splits)
  have "(\<exists>i. observed_change h (x # rest) p i) \<longleftrightarrow>
          observed_change h (x # rest) p 0 \<or> (\<exists>i. observed_change h (x # rest) p (Suc i))"
    by (metis not0_implies_Suc)
  also have "\<dots> \<longleftrightarrow> observed_change h (x # rest) p 0 \<or> (\<exists>i. observed_change h rest p1 i)"
    unfolding observed_change_Suc[OF p1(1)] ..
  finally have e: "(\<exists>i. observed_change h (x # rest) p i) \<longleftrightarrow>
          observed_change h (x # rest) p 0 \<or> (\<exists>i. observed_change h rest p1 i)" .
  have "any_changes p' \<longleftrightarrow> any_changes p1 \<or> (\<exists>i. observed_change h rest p1 i)"
    using Cons.IH[OF p1(2)] .
  also have "any_changes p1 \<longleftrightarrow> any_changes p \<or> observed_change h (x # rest) p 0"
    unfolding observed_change_0 using run_site_any_changes[OF p1(1)] .
  finally show ?case unfolding e by blast
qed

lemma run_sites_events:
  assumes "run_sites h inputs p = Inr p'"
    and "any_changes p \<longleftrightarrow> (\<exists>sid old new. Changed sid old new \<in> set (events p))"
  shows "any_changes p' \<longleftrightarrow> (\<exists>sid old new. Changed sid old new \<in> set (events p'))"
  using assms
proof (induction inputs arbitrary: p)
  case Nil
  then show ?case by simp
next
  case (Cons x rest)
  then obtain p1 where p1: "run_site h x p = Inr p1" "run_sites h rest p1 = Inr p'"
    by (auto split: sum.splits)
  from run_site_events[OF p1(1)] obtain ev where ev: "events p1 = events p @ [ev]"
    "(\<exists>sid old new. ev = Changed sid old new) \<longrightarrow> any_changes p1"
    "\<not> (\<exists>sid old new. ev = Changed sid old new) \<longrightarrow> any_changes p1 = any_changes p"
    by blast
  have "any_changes p1 \<longleftrightarrow> (\<exists>sid old new. Changed sid old new \<in> set (events p1))"
  proof (cases "\<exists>sid old new. ev = Changed sid old new")
    case True
    then show ?thesis using ev by auto
  next
    case False
    then have "any_changes p1 = any_changes p" using ev(3) by simp
    moreover have "(\<exists>sid old new. Changed sid old new \<in> set (events p1))
                     \<longleftrightarrow> (\<exists>sid old new. Changed sid old new \<in> set (events p))"
      using False ev(1) by auto
    ultimately show ?thesis using Cons.prems(2) by simp
  qed
  from Cons.IH[OF p1(2) this] show ?case .
qed

subsection \<open>What the loop leaves alone\<close>

lemma observe_cases:
  assumes "observe h site v p = Inr p'"
  shows "((map_of (state p) (site_id site) = None \<or> map_of (state p) (site_id site) = Some [])
          \<and> p' = p\<lparr>state := AList.update (site_id site) [(''hash'', h v), (''value'', v)] (state p),
                    events := events p @ [Baseline (site_id site) v]\<rparr>)
       \<or> (\<exists>d hs old. map_of (state p) (site_id site) = Some d \<and> map_of d ''hash'' = Some hs
            \<and> h v \<noteq> hs \<and> map_of d ''value'' = Some old
            \<and> p' = p\<lparr>state := AList.update (site_id site)
                         (AList.update ''value'' v (AList.update ''hash'' (h v) d)) (state p),
                      any_changes := True,
                      events := events p @ [Changed (site_id site) old v]\<rparr>)
       \<or> (\<exists>d. map_of (state p) (site_id site) = Some d \<and> map_of d ''hash'' = Some (h v)
            \<and> p' = p\<lparr>events := events p @ [Unchanged (site_id site) v]\<rparr>)"
proof -
  let ?base = "p\<lparr>state := AList.update (site_id site) [(''hash'', h v), (''value'', v)] (state p),
                 events := events p @ [Baseline (site_id site) v]\<rparr>"
  show ?thesis
  proof (cases "map_of (state p) (site_id site)")
    case None
    have "observe h site v p = Inr ?base" using None by (rule observe_absent)
    then have "p' = ?base" using assms by simp
    then show ?thesis using None by (intro disjI1 conjI)
  next
    case (Some d)
    show ?thesis
    proof (cases "d = []")
      case True
      then have e: "map_of (state p) (site_id site) = Some []" using Some by simp
      have "observe h site v p = Inr ?base" using e by (rule observe_empty)
      then have "p' = ?base" using assms by simp
      then show ?thesis using e by (intro disjI1 conjI disjI2)
    next
      case False
      show ?thesis
      proof (cases "map_of d ''hash''")
        case None
        have "observe h site v p = Inl (KeyError ''hash'')"
          using Some False None by (simp add: observe_def previous_hash_of_def)
        then show ?thesis using assms by simp
      next
        case hs: (Some hs)
        show ?thesis
        proof (cases "h v = hs")
          case True
          then have eq: "map_of d ''hash'' = Some (h v)" using hs by simp
          have "observe h site v p = Inr (p\<lparr>events := events p @ [Unchanged (site_id site) v]\<rparr>)"
            using Some eq by (rule observe_same)
          then have "p' = p\<lparr>events := events p @ [Unchanged (site_id site) v]\<rparr>"
            using assms by simp
          then have "\<exists>d. map_of (state p) (site_id site) = Some d \<and> map_of d ''hash'' = Some (h v)
              \<and> p' = p\<lparr>events := events p @ [Unchanged (site_id site) v]\<rparr>"
            using Some eq by (intro exI[of _ d] conjI)
          then show ?thesis by (intro disjI2)
        next
          case ne: False
          then have ne': "h v \<noteq> hs" .
          show ?thesis
          proof (cases "map_of d ''value''")
            case None
            have "observe h site v p = Inl TypeError"
              using Some False hs ne None
              by (simp add: observe_def previous_hash_of_def previous_value_of_def)
            then show ?thesis using assms by simp
          next
            case old: (Some old)
            let ?chg = "p\<lparr>state := AList.update (site_id site)
                         (AList.update ''value'' v (AList.update ''hash'' (h v) d)) (state p),
                      any_changes := True,
                      events := events p @ [Changed (site_id site) old v]\<rparr>"
            have "observe h site v p = Inr ?chg"
              using Some hs ne' old by (rule observe_changed)
            then have "p' = ?chg" using assms by simp
            then have "\<exists>d hs old. map_of (state p) (site_id site) = Some d \<and> map_of d ''hash'' = Some hs
              \<and> h v \<noteq> hs \<and> map_of d ''value'' = Some old
              \<and> p' = p\<lparr>state := AList.update (site_id site)
                         (AList.update ''value'' v (AList.update ''hash'' (h v) d)) (state p),
                      any_changes := True,
                      events := events p @ [Changed (site_id site) old v]\<rparr>"
              using Some hs ne' old by (intro exI[of _ d] exI[of _ hs] exI[of _ old] conjI)
            then show ?thesis by (intro disjI2 disjI1)
          qed
        qed
      qed
    qed
  qed
qed

lemma observe_other:
  assumes "observe h site v p = Inr p'" "k \<noteq> site_id site"
  shows "map_of (state p') k = map_of (state p) k"
  using observe_cases[OF assms(1)] assms(2)
  by (elim disjE exE conjE) (simp_all add: update_conv')

lemma observe_keeps:
  assumes "observe h site v p = Inr p'" "map_of (state p) k = Some d"
  shows "\<exists>d'. map_of (state p') k = Some d'"
  using observe_cases[OF assms(1)] assms(2)
  by (elim disjE exE conjE) (simp_all add: update_conv')

lemma observe_same_hash:
  assumes "observe h site v p = Inr p'" "map_of (state p) (site_id site) = Some d"
    "map_of d ''hash'' = Some (h v)"
  shows "state p' = state p"
proof -
  from observe_same[where h = h and v = v, OF assms(2,3)] assms(1)
  have "p' = p\<lparr>events := events p @ [Unchanged (site_id site) v]\<rparr>" by simp
  then show ?thesis by simp
qed

lemma run_site_other:
  assumes "run_site h x p = Inr p'"
    "\<forall>site raw_text. x = (site, Some raw_text) \<longrightarrow> site_id site \<noteq> k"
  shows "map_of (state p') k = map_of (state p) k"
proof (cases x)
  case (Pair site fetched)
  show ?thesis
  proof (cases fetched)
    case None
    then show ?thesis using assms(1) Pair by (auto simp: run_site_def)
  next
    case (Some raw_text)
    then obtain v where "observe h site v p = Inr p'"
      using assms(1) Pair by (auto simp: run_site_def split: sum.splits)
    moreover have "k \<noteq> site_id site" using assms(2) Pair Some by auto
    ultimately show ?thesis by (rule observe_other)
  qed
qed

lemma run_site_keeps:
  assumes "run_site h x p = Inr p'" "map_of (state p) k = Some d"
  shows "\<exists>d'. map_of (state p') k = Some d'"
proof (cases x)
  case (Pair site fetched)
  show ?thesis
  proof (cases fetched)
    case None
    then show ?thesis using assms Pair by (auto simp: run_site_def)
  next
    case (Some raw_text)
    then obtain v where "observe h site v p = Inr p'"
      using assms(1) Pair by (auto simp: run_site_def split: sum.splits)
    then show ?thesis using assms(2) by (rule observe_keeps)
  qed
qed

lemma run_site_unchanged:
  assumes "run_site h x p = Inr p'" "map_of (state p) k = Some d" "map_of d ''hash'' = Some hs"
    "\<forall>site raw_text v. x = (site, Some raw_text) \<and> site_id site = k
        \<and> extract_value site raw_text = Inr v \<longrightarrow> h v = hs"
  shows "map_of (state p') k = Some d"
proof (cases x)
  case (Pair site fetched)
  show ?thesis
  proof (cases fetched)
    case None
    then show ?thesis using assms(1,2) Pair by (auto simp: run_site_def)
  next
    case (Some raw_text)
    then obtain v where v: "extract_value site raw_text = Inr v" "observe h site v p = Inr p'"
      using assms(1) Pair by (auto simp: run_site_def split: sum.splits)
    show ?thesis
    proof (cases "site_id site = k")
      case True
      then have "h v = hs" using assms(4) Pair Some v(1) by blast
      then have "state p' = state p"
        using observe_same_hash[OF v(2)] assms(2,3) True by simp
      then show ?thesis using assms(2) by simp
    next
      case False
      then show ?thesis using observe_other[OF v(2), of k] assms(2) by simp
    qed
  qed
qed

lemma run_sites_other:
  assumes "run_sites h inputs p = Inr p'"
    "\<forall>site raw_text. (site, Some raw_text) \<in> set inputs \<longrightarrow> site_id site \<noteq> k"
  shows "map_of (state p') k = map_of (state p) k"
  using assms
proof (induction inputs arbitrary: p)
  case Nil
  then show ?case by simp
next
  case (Cons x rest)
  then obtain p1 where p1: "run_site h x p = Inr p1" "run_sites h rest p1 = Inr p'"
    by (auto split: sum.splits)
  have a: "\<forall>site raw_text. x = (site, Some raw_text) \<longrightarrow> site_id site \<noteq> k"
    using Cons.prems(2) by simp
  have b: "\<forall>site raw_text. (site, Some raw_text) \<in> set rest \<longrightarrow> site_id site \<noteq> k"
    using Cons.prems(2) by simp
  from run_site_other[OF p1(1) a] Cons.IH[OF p1(2) b] show ?case by simp
qed

lemma run_sites_keeps:
  assumes "run_sites h inputs p = Inr p'" "map_of (state p) k = Some d"
  shows "\<exists>d'. map_of (state p') k = Some d'"
  using assms
proof (induction inputs arbitrary: p d)
  case Nil
  then show ?case by simp
next
  case (Cons x rest)
  then obtain p1 where p1: "run_site h x p = Inr p1" "run_sites h rest p1 = Inr p'"
    by (auto split: sum.splits)
  from run_site_keeps[OF p1(1) Cons.prems(2)] obtain d1 where "map_of (state p1) k = Some d1" ..
  with Cons.IH[OF p1(2)] show ?case .
qed

lemma run_sites_unchanged:
  assumes "run_sites h inputs p = Inr p'" "map_of (state p) k = Some d" "map_of d ''hash'' = Some hs"
    "\<forall>site raw_text v. (site, Some raw_text) \<in> set inputs \<and> site_id site = k
        \<and> extract_value site raw_text = Inr v \<longrightarrow> h v = hs"
  shows "map_of (state p') k = Some d"
  using assms
proof (induction inputs arbitrary: p)
  case Nil
  then show ?case by simp
next
  case (Cons x rest)
  then obtain p1 where p1: "run_site h x p = Inr p1" "run_sites h rest p1 = Inr p'"
    by (auto split: sum.splits)
  have a: "\<forall>site raw_text v. x = (site, Some raw_text) \<and> site_id site = k
        \<and> extract_value site raw_text = Inr v \<longrightarrow> h v = hs"
    using Cons.prems(4) by auto
  have b: "\<forall>site raw_text v. (site, Some raw_text) \<in> set rest \<and> site_id site = k
        \<and> extract_value site raw_text = Inr v \<longrightarrow> h v = hs"
    using Cons.prems(4) by auto
  have "map_of (state p1) k = Some d"
    using p1(1) Cons.prems(2,3) a by (rule run_site_unchanged)
  then show ?case
    using p1(2) Cons.prems(3) b by (intro Cons.IH)
qed

subsection \<open>The loop completes on a ledger with complete entries\<close>

lemma extract_value_total: "\<exists>v. extract_value site text = Inr v"
proof -
  have p: "\<exists>v. extract_price_value t = Inr v" for t
    using extract_price_value_match[of t] extract_price_value_fallback[of t] by blast
  have s: "\<exists>v. extract_stock_price_value t = Inr v" for t
  proof (cases "occurs STOCK_PREV_CLOSE_PATTERN t")
    case True
    then show ?thesis using extract_stock_match[of t] by blast
  next
    case False
    then show ?thesis using extract_stock_no_match[of t] p[of t] by simp
  qed
  show ?thesis
    using p s by (auto simp: extract_value_def split: option.splits)
qed

lemma set_update_subset: "set (AList.update k v al) \<subseteq> insert (k, v) (set al)"
  by (induction al) auto

lemma complete_entries_iff:
  "complete_entries st \<longleftrightarrow>
     (\<forall>(k, d)\<in>set st. map_of d ''hash'' \<noteq> None \<and> map_of d ''value'' \<noteq> None)"
  by (simp add: complete_entries_def list_all_iff)

lemma complete_entries_update:
  assumes "complete_entries st" "map_of d ''hash'' \<noteq> None" "map_of d ''value'' \<noteq> None"
  shows "complete_entries (AList.update k d st)"
  using assms set_update_subset[of k d st] unfolding complete_entries_iff by blast

lemma observe_complete:
  assumes "complete_entries (state p)"
  shows "\<exists>p'. observe h site v p = Inr p' \<and> complete_entries (state p')"
proof (cases "map_of (state p) (site_id site)")
  case None
  have "complete_entries (AList.update (site_id site) [(''hash'', h v), (''value'', v)] (state p))"
    using assms by (rule complete_entries_update) simp_all
  then show ?thesis unfolding observe_absent[OF None] by simp
next
  case (Some d)
  then have "(site_id site, d) \<in> set (state p)" by (rule map_of_SomeD)
  then obtain hs old where d: "map_of d ''hash'' = Some hs" "map_of d ''value'' = Some old"
    using assms unfolding complete_entries_iff by fastforce
  show ?thesis
  proof (cases "h v = hs")
    case True
    then have "map_of d ''hash'' = Some (h v)" using d(1) by simp
    from observe_same[where h = h and v = v, OF Some this] show ?thesis using assms by simp
  next
    case False
    have "complete_entries (AList.update (site_id site)
            (AList.update ''value'' v (AList.update ''hash'' (h v) d)) (state p))"
      using assms by (rule complete_entries_update) (simp_all add: update_conv')
    then show ?thesis
      unfolding observe_changed[where h = h and v = v, OF Some d(1) False d(2)] by simp
  qed
qed

lemma run_site_complete:
  assumes "complete_entries (state p)"
  shows "\<exists>p'. run_site h x p = Inr p' \<and> complete_entries (state p')"
proof (cases x)
  case (Pair site fetched)
  show ?thesis
  proof (cases fetched)
    case None
    then show ?thesis using assms Pair by (simp add: run_site_def)
  next
    case (Some raw_text)
    obtain v where "extract_value site raw_text = Inr v" using extract_value_total by blast
    then show ?thesis using observe_complete[OF assms, of h site v] Pair Some
      by (simp add: run_site_def)
  qed
qed

lemma run_sites_complete:
  assumes "complete_entries (state p)"
  shows "\<exists>p'. run_sites h inputs p = Inr p' \<and> complete_entries (state p')"
  using assms
proof (induction inputs arbitrary: p)
  case Nil
  then show ?case by simp
next
  case (Cons x rest)
  from run_site_complete[OF Cons.prems, of h x] obtain p1 where
    p1: "run_site h x p = Inr p1" "complete_entries (state p1)" by blast
  from Cons.IH[OF p1(2)] show ?case using p1(1) by simp
qed

subsection \<open>The pass as a whole\<close>

lemma to_site_configs_configured:
  "\<exists>warnings. to_site_configs SITES = Inr (configured SITES, warnings)"
  by (simp add: to_site_configs_def site_loop_result configured_def)

lemma check_sites_no_sites:
  assumes "configured SITES = []"
  shows "check_sites h render parse SITES fetch sf =
           Inr \<lparr>state_file_after = sf, printed = No_sites, site_events = []\<rparr>"
  using to_site_configs_configured[of SITES] assms by (auto simp: check_sites_def)

lemma check_sites_run:
  assumes "configured SITES \<noteq> []"
  shows "check_sites h render parse SITES fetch sf =
           (case run_sites h (pass_inputs fetch (configured SITES)) (initial_pass parse sf) of
              Inl e \<Rightarrow> Inl e
            | Inr p \<Rightarrow>
                Inr \<lparr>state_file_after = save_state render (state p),
                     printed = (if any_changes p then Changes_detected else No_changes_detected),
                     site_events = events p\<rparr>)"
  using to_site_configs_configured[of SITES] assms by (auto simp: check_sites_def)

lemma check_sites_completes:
  assumes "complete_entries (load_state parse sf)"
  shows "\<exists>out. check_sites h render parse SITES fetch sf = Inr out"
proof (cases "configured SITES = []")
  case True
  then show ?thesis by (simp add: check_sites_no_sites)
next
  case False
  have "complete_entries (state (initial_pass parse sf))"
    using assms by (simp add: initial_pass_def)
  from run_sites_complete[OF this, of h "pass_inputs fetch (configured SITES)"]
  obtain p where "run_sites h (pass_inputs fetch (configured SITES)) (initial_pass parse sf) = Inr p"
    by blast
  then show ?thesis by (simp add: check_sites_run[OF False])
qed

text \<open>
  C10. A pass over a ledger whose entries are complete always ends with a summary.
  The summary says that changes were detected exactly when some site of the pass, at
  its turn, had a stored hash different from the hash of its new value; equally,
  exactly when a Changed alert was sent. Baseline alerts do not count: a pass that
  sent only Baseline alerts says that no changes were detected.
\<close>

theorem C10_summary:
  "(complete_entries (load_state parse sf) \<longrightarrow>
      (\<exists>out. check_sites h render parse SITES fetch sf = Inr out))
   \<and> (\<forall>out. check_sites h render parse SITES fetch sf = Inr out \<longrightarrow>
        (printed out = Changes_detected \<longleftrightarrow>
           (\<exists>i. observed_change h (pass_inputs fetch (configured SITES)) (initial_pass parse sf) i))
      \<and> (printed out = Changes_detected \<longleftrightarrow>
           (\<exists>sid old new. Changed sid old new \<in> set (site_events out)))
      \<and> (site_events out \<noteq> [] \<and> (\<forall>ev\<in>set (site_events out). \<exists>sid v. ev = Baseline sid v) \<longrightarrow>
           printed out = No_changes_detected))"
proof (intro conjI impI allI)
  assume "complete_entries (load_state parse sf)"
  then show "\<exists>out. check_sites h render parse SITES fetch sf = Inr out"
    by (rule check_sites_completes)
next
  fix out
  assume out: "check_sites h render parse SITES fetch sf = Inr out"
  let ?inputs = "pass_inputs fetch (configured SITES)"
  let ?start = "initial_pass parse sf"
  have "(printed out = Changes_detected \<longleftrightarrow> (\<exists>i. observed_change h ?inputs ?start i))
      \<and> (printed out = Changes_detected \<longleftrightarrow> (\<exists>sid old new. Changed sid old new \<in> set (site_events out)))
      \<and> (site_events out \<noteq> [] \<longrightarrow> printed out \<noteq> No_sites)"
  proof (cases "configured SITES = []")
    case True
    then have "out = \<lparr>state_file_after = sf, printed = No_sites, site_events = []\<rparr>"
      using out by (simp add: check_sites_no_sites)
    moreover have "\<not> observed_change h ?inputs ?start i" for i
      using True by (simp add: observed_change_def pass_inputs_def)
    ultimately show ?thesis by simp
  next
    case False
    then obtain p where p: "run_sites h ?inputs ?start = Inr p"
      and o: "out = \<lparr>state_file_after = save_state render (state p),
                     printed = (if any_changes p then Changes_detected else No_changes_detected),
                     site_events = events p\<rparr>"
      using out by (auto simp: check_sites_run split: sum.splits)
    have 1: "any_changes p \<longleftrightarrow> (\<exists>i. observed_change h ?inputs ?start i)"
      using run_sites_any_changes[OF p] by (simp add: initial_pass_def)
    have 2: "any_changes p \<longleftrightarrow> (\<exists>sid old new. Changed sid old new \<in> set (events p))"
      using p by (rule run_sites_events) (simp add: initial_pass_def)
    show ?thesis using 1 2 o by simp
  qed
  then have a: "printed out = Changes_detected \<longleftrightarrow> (\<exists>i. observed_change h ?inputs ?start i)"
    and b: "printed out = Changes_detected \<longleftrightarrow> (\<exists>sid old new. Changed sid old new \<in> set (site_events out))"
    and c: "site_events out \<noteq> [] \<longrightarrow> printed out \<noteq> No_sites"
    by blast+
  show "printed out = Changes_detected \<longleftrightarrow> (\<exists>i. observed_change h ?inputs ?start i)" by (rule a)
  show "printed out = Changes_detected \<longleftrightarrow> (\<exists>sid old new. Changed sid old new \<in> set (site_events out))"
    by (rule b)
  assume d: "site_events out \<noteq> [] \<and> (\<forall>ev\<in>set (site_events out). \<exists>sid v. ev = Baseline sid v)"
  then have "\<not> (\<exists>sid old new. Changed sid old new \<in> set (site_events out))" by fastforce
  then have "printed out \<noteq> Changes_detected" using b by simp
  moreover have "printed out \<noteq> No_sites" using c d by simp
  ultimately show "printed out = No_changes_detected" by (cases "printed out") simp_all
qed

lemmas pass_defs = check_sites_def to_site_configs_def make_site_def getitem_def get_default_def
  pass_inputs_def enumerate_eq_zip run_site_def extract_value_def observe_def previous_hash_of_def
  previous_value_of_def initial_pass_def load_state_def save_state_def
  demo_SITES_def demo_fetch_def demo_ledger_def demo_parse_def

lemma demo_run_changed:
  "check_sites rev demo_render demo_parse demo_SITES demo_fetch (Some ''ledger'') =
     Inr \<lparr>state_file_after = save_state demo_render
             [(''retired'', [(''hash'', ''x''), (''value'', ''old page'')]),
              (''status'', [(''hash'', ''dedargeD''), (''value'', ''Degraded'')])],
          printed = Changes_detected,
          site_events = [Changed ''status'' ''Operational'' ''Degraded'', FetchFailed ''blog'']\<rparr>"
  by (simp add: pass_defs upt_rec)

lemma demo_run_baseline:
  "check_sites rev demo_render demo_parse demo_SITES (\<lambda>i site. Some ''Degraded'') None =
     Inr \<lparr>state_file_after = save_state demo_render
             [(''status'', [(''hash'', ''dedargeD''), (''value'', ''Degraded'')]),
              (''blog'', [(''hash'', ''dedargeD''), (''value'', ''Degraded'')])],
          printed = No_changes_detected,
          site_events = [Baseline ''status'' ''Degraded'', Baseline ''blog'' ''Degraded'']\<rparr>"
  by (simp add: pass_defs upt_rec)

lemma demo_complete: "complete_entries (load_state demo_parse (Some ''ledger''))"
  by (simp add: complete_entries_def load_state_def demo_parse_def demo_ledger_def)

theorem C10_summary_witness:
  "complete_entries (load_state demo_parse (Some ''ledger''))
   \<and> (\<exists>out. check_sites rev demo_render demo_parse demo_SITES demo_fetch (Some ''ledger'') = Inr out
        \<and> (\<exists>sid old new. Changed sid old new \<in> set (site_events out))
        \<and> printed out = Changes_detected
        \<and> (\<exists>i. observed_change rev (pass_inputs demo_fetch (configured demo_SITES))
                  (initial_pass demo_parse (Some ''ledger'')) i))
   \<and> (\<exists>out. check_sites rev demo_render demo_parse demo_SITES (\<lambda>i site. Some ''Degraded'') None = Inr out
        \<and> site_events out \<noteq> [] \<and> (\<forall>ev\<in>set (site_events out). \<exists>sid v. ev = Baseline sid v)
        \<and> printed out = No_changes_detected)"
proof -
  let ?o1 = "\<lparr>state_file_after = save_state demo_render
             [(''retired'', [(''hash'', ''x''), (''value'', ''old page'')]),
              (''status'', [(''hash'', ''dedargeD''), (''value'', ''Degraded'')])],
          printed = Changes_detected,
          site_events = [Changed ''status'' ''Operational'' ''Degraded'', FetchFailed ''blog'']\<rparr>"
  let ?o2 = "\<lparr>state_file_after = save_state demo_render
             [(''status'', [(''hash'', ''dedargeD''), (''value'', ''Degraded'')]),
              (''blog'', [(''hash'', ''dedargeD''), (''value'', ''Degraded'')])],
          printed = No_changes_detected,
          site_events = [Baseline ''status'' ''Degraded'', Baseline ''blog'' ''Degraded'']\<rparr>"
  note t1 = C10_summary[where parse = demo_parse and sf = "Some ''ledger''" and h = rev
      and render = demo_render and SITES = demo_SITES and fetch = demo_fetch,
      THEN conjunct2, rule_format, OF demo_run_changed]
  note t2 = C10_summary[where parse = demo_parse and sf = None and h = rev
      and render = demo_render and SITES = demo_SITES and fetch = "\<lambda>i site. Some ''Degraded''",
      THEN conjunct2, rule_format, OF demo_run_baseline]
  have e1: "\<exists>sid old new. Changed sid old new \<in> set (site_events ?o1)" by simp
  have p1: "printed ?o1 = Changes_detected" using t1 e1 by blast
  have c1: "\<exists>i. observed_change rev (pass_inputs demo_fetch (configured demo_SITES))
                  (initial_pass demo_parse (Some ''ledger'')) i"
    using t1 p1 by blast
  have b2: "site_events ?o2 \<noteq> [] \<and> (\<forall>ev\<in>set (site_events ?o2). \<exists>sid v. ev = Baseline sid v)"
    by simp
  have p2: "printed ?o2 = No_changes_detected" using t2 b2 by blast
  have A: "\<exists>out. check_sites rev demo_render demo_parse demo_SITES demo_fetch (Some ''ledger'') = Inr out
        \<and> (\<exists>sid old new. Changed sid old new \<in> set (site_events out))
        \<and> printed out = Changes_detected
        \<and> (\<exists>i. observed_change rev (pass_inputs demo_fetch (configured demo_SITES))
                  (initial_pass demo_parse (Some ''ledger'')) i)"
    using demo_run_changed e1 p1 c1 by (intro exI[of _ ?o1] conjI)
  have B: "\<exists>out. check_sites rev demo_render demo_parse demo_SITES (\<lambda>i site. Some ''Degraded'') None = Inr out
        \<and> site_events out \<noteq> [] \<and> (\<forall>ev\<in>set (site_events out). \<exists>sid v. ev = Baseline sid v)
        \<and> printed out = No_changes_detected"
    using demo_run_baseline b2 p2 by (intro exI[of _ ?o2] conjI) simp_all
  show ?thesis by (rule conjI[OF demo_complete conjI[OF A B]])
qed

lemma entries_preserved_same: "entries_preserved h inputs st st"
  unfolding entries_preserved_def by simp

lemma run_sites_preserved:
  assumes p: "run_sites h inputs p0 = Inr p"
  shows "entries_preserved h inputs (state p0) (state p)"
  unfolding entries_preserved_def
proof (intro allI impI)
  fix k d assume kd: "map_of (state p0) k = Some d"
  have 1: "\<exists>d'. map_of (state p) k = Some d'"
    using p kd by (rule run_sites_keeps)
  have 2: "map_of (state p) k = Some d"
    if "\<forall>site raw_text. (site, Some raw_text) \<in> set inputs \<longrightarrow> site_id site \<noteq> k"
    using run_sites_other[OF p that] kd by simp
  have 3: "map_of (state p) k = Some d"
    if a: "map_of d ''hash'' = Some hs"
      and b: "\<forall>site raw_text v. (site, Some raw_text) \<in> set inputs \<and> site_id site = k
                \<and> extract_value site raw_text = Inr v \<longrightarrow> h v = hs" for hs
    using p kd a b by (rule run_sites_unchanged)
  show "(\<exists>d'. map_of (state p) k = Some d')
      \<and> ((\<forall>site raw_text. (site, Some raw_text) \<in> set inputs \<longrightarrow> site_id site \<noteq> k)
            \<longrightarrow> map_of (state p) k = Some d)
      \<and> (\<forall>h'. map_of d ''hash'' = Some h'
              \<and> (\<forall>site raw_text v. (site, Some raw_text) \<in> set inputs \<and> site_id site = k
                     \<and> extract_value site raw_text = Inr v \<longrightarrow> h v = h')
            \<longrightarrow> map_of (state p) k = Some d)"
  proof (intro conjI)
    show "\<exists>d'. map_of (state p) k = Some d'" by (rule 1)
    show "(\<forall>site raw_text. (site, Some raw_text) \<in> set inputs \<longrightarrow> site_id site \<noteq> k)
            \<longrightarrow> map_of (state p) k = Some d"
      using 2 by (rule impI)
    show "\<forall>h'. map_of d ''hash'' = Some h'
              \<and> (\<forall>site raw_text v. (site, Some raw_text) \<in> set inputs \<and> site_id site = k
                     \<and> extract_value site raw_text = Inr v \<longrightarrow> h v = h')
            \<longrightarrow> map_of (state p) k = Some d"
    proof (intro allI impI)
      fix h' assume c: "map_of d ''hash'' = Some h'
              \<and> (\<forall>site raw_text v. (site, Some raw_text) \<in> set inputs \<and> site_id site = k
                     \<and> extract_value site raw_text = Inr v \<longrightarrow> h v = h')"
      show "map_of (state p) k = Some d"
        by (rule 3[OF conjunct1[OF c] conjunct2[OF c]])
    qed
  qed
qed

text \<open>
  C9. A pass over a ledger whose entries are complete always ends, and what it leaves
  as the persisted ledger (the ledger it writes, or the untouched state file when no
  site is configured) still has every id of the loaded ledger. The entry of an id is
  the loaded one when no fetched site has this id, and when every value observed for
  this id during the pass has the stored hash.
\<close>

theorem C9_entries_never_deleted:
  "(complete_entries (load_state parse sf) \<longrightarrow>
      (\<exists>out. check_sites h render parse SITES fetch sf = Inr out))
   \<and> (\<forall>out. check_sites h render parse SITES fetch sf = Inr out \<longrightarrow>
        (\<exists>persisted.
            (state_file_after out = save_state render persisted
               \<or> state_file_after out = sf \<and> persisted = load_state parse sf)
          \<and> entries_preserved h (pass_inputs fetch (configured SITES))
                (load_state parse sf) persisted))"
proof (intro conjI impI allI)
  assume "complete_entries (load_state parse sf)"
  then show "\<exists>out. check_sites h render parse SITES fetch sf = Inr out"
    by (rule check_sites_completes)
next
  fix out
  assume out: "check_sites h render parse SITES fetch sf = Inr out"
  let ?inputs = "pass_inputs fetch (configured SITES)"
  show "\<exists>persisted.
            (state_file_after out = save_state render persisted
               \<or> state_file_after out = sf \<and> persisted = load_state parse sf)
          \<and> entries_preserved h ?inputs (load_state parse sf) persisted"
  proof (cases "configured SITES = []")
    case True
    then have "out = \<lparr>state_file_after = sf, printed = No_sites, site_events = []\<rparr>"
      using out by (simp add: check_sites_no_sites)
    then have "state_file_after out = sf" by simp
    then show ?thesis
      using entries_preserved_same[of h ?inputs "load_state parse sf"]
      by (intro exI[of _ "load_state parse sf"] conjI disjI2) simp_all
  next
    case False
    obtain p where p: "run_sites h ?inputs (initial_pass parse sf) = Inr p"
      and o: "out = \<lparr>state_file_after = save_state render (state p),
                     printed = (if any_changes p then Changes_detected else No_changes_detected),
                     site_events = events p\<rparr>"
      using out unfolding check_sites_run[OF False]
      by (cases "run_sites h ?inputs (initial_pass parse sf)") simp_all
    have "entries_preserved h ?inputs (state (initial_pass parse sf)) (state p)"
      using p by (rule run_sites_preserved)
    then have "entries_preserved h ?inputs (load_state parse sf) (state p)"
      by (simp add: initial_pass_def)
    moreover have "state_file_after out = save_state render (state p)" using o by simp
    ultimately show ?thesis by (intro exI[of _ "state p"] conjI disjI1)
  qed
qed

theorem C9_entries_never_deleted_witness:
  "complete_entries (load_state demo_parse (Some ''ledger''))
   \<and> map_of (load_state demo_parse (Some ''ledger'')) ''retired''
        = Some [(''hash'', ''x''), (''value'', ''old page'')]
   \<and> \<not> (\<exists>site raw_text. (site, Some raw_text) \<in> set (pass_inputs demo_fetch (configured demo_SITES))
           \<and> site_id site = ''retired'')
   \<and> (\<exists>out persisted.
         check_sites rev demo_render demo_parse demo_SITES demo_fetch (Some ''ledger'') = Inr out
       \<and> (state_file_after out = save_state demo_render persisted
            \<or> state_file_after out = Some ''ledger'' \<and> persisted = load_state demo_parse (Some ''ledger''))
       \<and> entries_preserved rev (pass_inputs demo_fetch (configured demo_SITES))
            (load_state demo_parse (Some ''ledger'')) persisted
       \<and> map_of persisted ''retired'' = Some [(''hash'', ''x''), (''value'', ''old page'')])"
proof -
  note t = C9_entries_never_deleted[where parse = demo_parse and sf = "Some ''ledger''" and h = rev
      and render = demo_render and SITES = demo_SITES and fetch = demo_fetch]
  have B: "map_of (load_state demo_parse (Some ''ledger'')) ''retired''
        = Some [(''hash'', ''x''), (''value'', ''old page'')]"
    by (simp add: load_state_def demo_parse_def demo_ledger_def)
  have C: "\<not> (\<exists>site raw_text. (site, Some raw_text) \<in> set (pass_inputs demo_fetch (configured demo_SITES))
           \<and> site_id site = ''retired'')"
    by (simp add: pass_inputs_def configured_def demo_SITES_def demo_fetch_def well_formed_def
        site_of_entry_def enumerate_eq_zip upt_rec)
  from t demo_complete obtain out where
    out: "check_sites rev demo_render demo_parse demo_SITES demo_fetch (Some ''ledger'') = Inr out"
    by blast
  from t out obtain persisted where
    p: "state_file_after out = save_state demo_render persisted
       \<or> state_file_after out = Some ''ledger'' \<and> persisted = load_state demo_parse (Some ''ledger'')"
    "entries_preserved rev (pass_inputs demo_fetch (configured demo_SITES))
            (load_state demo_parse (Some ''ledger'')) persisted"
    by blast
  have "(\<forall>site raw_text. (site, Some raw_text) \<in> set (pass_inputs demo_fetch (configured demo_SITES))
           \<longrightarrow> site_id site \<noteq> ''retired'')
        \<longrightarrow> map_of persisted ''retired'' = Some [(''hash'', ''x''), (''value'', ''old page'')]"
    using p(2)[unfolded entries_preserved_def, rule_format, OF B] by (elim conjE)
  moreover have "\<forall>site raw_text. (site, Some raw_text) \<in> set (pass_inputs demo_fetch (configured demo_SITES))
           \<longrightarrow> site_id site \<noteq> ''retired''"
    using C by blast
  ultimately have D: "map_of persisted ''retired'' = Some [(''hash'', ''x''), (''value'', ''old page'')]"
    by (rule mp)
  have A: "\<exists>out persisted.
         check_sites rev demo_render demo_parse demo_SITES demo_fetch (Some ''ledger'') = Inr out
       \<and> (state_file_after out = save_state demo_render persisted
            \<or> state_file_after out = Some ''ledger'' \<and> persisted = load_state demo_parse (Some ''ledger''))
       \<and> entries_preserved rev (pass_inputs demo_fetch (configured demo_SITES))
            (load_state demo_parse (Some ''ledger'')) persisted
       \<and> map_of persisted ''retired'' = Some [(''hash'', ''x''), (''value'', ''old page'')]"
    using out p D by (intro exI[of _ out] exI[of _ persisted] conjI)
  show ?thesis by (rule conjI[OF demo_complete conjI[OF B conjI[OF C A]]])
qed

section \<open>The difference analyzer\<close>

lemma number_search_match:
  assumes "occurs NUMBER v"
  shows "\<exists>before t after. first_match NUMBER v before t after
           \<and> search Eps NUMBER v = Some (length before, t, t)"
proof -
  from assms obtain k g0 g1 where s: "search Eps NUMBER v = Some (k, g0, g1)"
    unfolding occurs_search_Eps by auto
  have "\<exists>before pre after. first_match (Seq Eps NUMBER) v before (pre @ g1) after
           \<and> k = length before \<and> g0 = pre @ g1 \<and> pre \<in> lang Eps \<and> g1 \<in> lang NUMBER"
    by (rule search_first_match[OF _ s]) (rule longest_NUMBER)
  then obtain before pre after where f:
    "first_match (Seq Eps NUMBER) v before (pre @ g1) after"
    "k = length before" "g0 = pre @ g1" "pre \<in> lang Eps"
    by blast
  from f(4) have "pre = []" by simp
  then have "first_match NUMBER v before g1 after" "g0 = g1"
    using f(1,3) by (simp_all add: first_match_Seq_Eps)
  then show ?thesis using s f(2) by blast
qed

lemma parse_number_none:
  "\<not> occurs NUMBER v \<Longrightarrow> parse_number_from_value ops v = None"
  by (simp add: parse_number_from_value_def not_occurs_search_Eps)

lemma parse_number_token:
  assumes "occurs NUMBER v"
  shows "\<exists>before t after. first_match NUMBER v before t after
           \<and> parse_number_from_value ops v = float_of ops (remove_commas t)"
proof -
  from number_search_match[OF assms] obtain before t after where
    "first_match NUMBER v before t after" "search Eps NUMBER v = Some (length before, t, t)"
    by blast
  then show ?thesis by (auto simp: parse_number_from_value_def)
qed

text \<open>
  C6. The numeric token of a value is the leftmost match of the number pattern, the
  longest at its position; its commas are removed before conversion. When either
  value has no such token the analyzer reports nothing. Otherwise, with both tokens
  converted, it reports the new number minus the old one, and the direction Up when
  the difference is above zero, Down when it is below, Flat otherwise. The values
  \<^verbatim>\<open>Operational\<close> and \<^verbatim>\<open>Degraded\<close> give nothing; \<^verbatim>\<open>$10.00\<close> and \<^verbatim>\<open>$12.50\<close> give the
  difference of the numbers 12.50 and 10.00 and, in exact arithmetic, 5/2 and Up.
\<close>

theorem C6_describe_difference:
  "(\<not> occurs NUMBER old_value \<or> \<not> occurs NUMBER new_value \<longrightarrow>
      describe_difference ops old_value new_value = None)
   \<and> (occurs NUMBER old_value \<and> occurs NUMBER new_value \<longrightarrow>
       (\<exists>b1 t1 a1 b2 t2 a2.
          first_match NUMBER old_value b1 t1 a1 \<and> first_match NUMBER new_value b2 t2 a2
          \<and> describe_difference ops old_value new_value =
              (case float_of ops (remove_commas t1) of
                 None \<Rightarrow> None
               | Some old_num \<Rightarrow>
                  (case float_of ops (remove_commas t2) of
                     None \<Rightarrow> None
                   | Some new_num \<Rightarrow>
                       Some (if gt_zero ops (fsub ops new_num old_num) then Up
                             else if lt_zero ops (fsub ops new_num old_num) then Down
                             else Flat,
                             fsub ops new_num old_num)))))
   \<and> describe_difference ops ''Operational'' ''Degraded'' = None
   \<and> describe_difference ops ''$10.00'' ''$12.50'' =
        (case float_of ops ''10.00'' of
           None \<Rightarrow> None
         | Some old_num \<Rightarrow>
            (case float_of ops ''12.50'' of
               None \<Rightarrow> None
             | Some new_num \<Rightarrow>
                 Some (if gt_zero ops (fsub ops new_num old_num) then Up
                       else if lt_zero ops (fsub ops new_num old_num) then Down
                       else Flat,
                       fsub ops new_num old_num)))
   \<and> describe_difference exact_ops ''$10.00'' ''$12.50'' = Some (Up, 5 / 2)"
proof (intro conjI impI)
  assume "\<not> occurs NUMBER old_value \<or> \<not> occurs NUMBER new_value"
  then show "describe_difference ops old_value new_value = None"
    using parse_number_none[of old_value ops] parse_number_none[of new_value ops]
    by (auto simp: describe_difference_def Let_def split: option.splits)
next
  assume a: "occurs NUMBER old_value \<and> occurs NUMBER new_value"
  from parse_number_token[of old_value ops] a obtain b1 t1 a1 where
    1: "first_match NUMBER old_value b1 t1 a1"
       "parse_number_from_value ops old_value = float_of ops (remove_commas t1)"
    by blast
  from parse_number_token[of new_value ops] a obtain b2 t2 a2 where
    2: "first_match NUMBER new_value b2 t2 a2"
       "parse_number_from_value ops new_value = float_of ops (remove_commas t2)"
    by blast
  have "describe_difference ops old_value new_value =
              (case float_of ops (remove_commas t1) of
                 None \<Rightarrow> None
               | Some old_num \<Rightarrow>
                  (case float_of ops (remove_commas t2) of
                     None \<Rightarrow> None
                   | Some new_num \<Rightarrow>
                       Some (if gt_zero ops (fsub ops new_num old_num) then Up
                             else if lt_zero ops (fsub ops new_num old_num) then Down
                             else Flat,
                             fsub ops new_num old_num)))"
    unfolding describe_difference_def 1(2) 2(2) by (simp add: Let_def split: option.splits)
  then show "\<exists>b1 t1 a1 b2 t2 a2.
          first_match NUMBER old_value b1 t1 a1 \<and> first_match NUMBER new_value b2 t2 a2
          \<and> describe_difference ops old_value new_value =
              (case float_of ops (remove_commas t1) of
                 None \<Rightarrow> None
               | Some old_num \<Rightarrow>
                  (case float_of ops (remove_commas t2) of
                     None \<Rightarrow> None
                   | Some new_num \<Rightarrow>
                       Some (if gt_zero ops (fsub ops new_num old_num) then Up
                             else if lt_zero ops (fsub ops new_num old_num) then Down
                             else Flat,
                             fsub ops new_num old_num)))"
    using 1(1) 2(1) by (intro exI[of _ b1] exI[of _ t1] exI[of _ a1] exI[of _ b2] exI[of _ t2] exI[of _ a2] conjI)
next
  have "parse_number_from_value ops ''Operational'' = None"
    by (simp add: parse_number_from_value_def run_defs)
  then show "describe_difference ops ''Operational'' ''Degraded'' = None"
    by (simp add: describe_difference_def)
next
  have o: "parse_number_from_value ops ''$10.00'' = float_of ops ''10.00''"
    by (simp add: parse_number_from_value_def run_defs)
  have n: "parse_number_from_value ops ''$12.50'' = float_of ops ''12.50''"
    by (simp add: parse_number_from_value_def run_defs)
  show "describe_difference ops ''$10.00'' ''$12.50'' =
        (case float_of ops ''10.00'' of
           None \<Rightarrow> None
         | Some old_num \<Rightarrow>
            (case float_of ops ''12.50'' of
               None \<Rightarrow> None
             | Some new_num \<Rightarrow>
                 Some (if gt_zero ops (fsub ops new_num old_num) then Up
                       else if lt_zero ops (fsub ops new_num old_num) then Down
                       else Flat,
                       fsub ops new_num old_num)))"
    unfolding describe_difference_def o n by (simp add: Let_def split: option.splits)
next
  have o: "parse_number_from_value exact_ops ''$10.00'' = Some 10"
    by (simp add: parse_number_from_value_def run_defs exact_ops_def decimal_value_def)
  have n: "parse_number_from_value exact_ops ''$12.50'' = Some (25 / 2)"
    by (simp add: parse_number_from_value_def run_defs exact_ops_def decimal_value_def)
  show "describe_difference exact_ops ''$10.00'' ''$12.50'' = Some (Up, 5 / 2)"
    unfolding describe_difference_def o n by (simp add: exact_ops_def)
qed

theorem C6_describe_difference_witness:
  "occurs NUMBER ''was $1,010.00'' \<and> occurs NUMBER ''$1,012.50 now''
   \<and> (\<exists>b1 t1 a1 b2 t2 a2.
          first_match NUMBER ''was $1,010.00'' b1 t1 a1 \<and> first_match NUMBER ''$1,012.50 now'' b2 t2 a2
          \<and> describe_difference exact_ops ''was $1,010.00'' ''$1,012.50 now'' =
              (case float_of exact_ops (remove_commas t1) of
                 None \<Rightarrow> None
               | Some old_num \<Rightarrow>
                  (case float_of exact_ops (remove_commas t2) of
                     None \<Rightarrow> None
                   | Some new_num \<Rightarrow>
                       Some (if gt_zero exact_ops (fsub exact_ops new_num old_num) then Up
                             else if lt_zero exact_ops (fsub exact_ops new_num old_num) then Down
                             else Flat,
                             fsub exact_ops new_num old_num))))
   \<and> describe_difference exact_ops ''was $1,010.00'' ''$1,012.50 now'' = Some (Up, 5 / 2)
   \<and> describe_difference exact_ops ''$1,012.50 now'' ''was $1,010.00'' = Some (Down, - 5 / 2)
   \<and> \<not> occurs NUMBER ''Operational''
   \<and> describe_difference exact_ops ''Operational'' ''$1,012.50 now'' = None"
proof -
  note t = C6_describe_difference[of "''was $1,010.00''" "''$1,012.50 now''" exact_ops]
  note u = C6_describe_difference[of "''Operational''" "''$1,012.50 now''" exact_ops]
  have o: "occurs NUMBER ''was $1,010.00''" unfolding occurs_search_Eps by (simp add: run_defs)
  have n: "occurs NUMBER ''$1,012.50 now''" unfolding occurs_search_Eps by (simp add: run_defs)
  have z: "\<not> occurs NUMBER ''Operational''" unfolding occurs_search_Eps by (simp add: run_defs)
  have on: "occurs NUMBER ''was $1,010.00'' \<and> occurs NUMBER ''$1,012.50 now''" using o n ..
  have A: "\<exists>b1 t1 a1 b2 t2 a2.
          first_match NUMBER ''was $1,010.00'' b1 t1 a1 \<and> first_match NUMBER ''$1,012.50 now'' b2 t2 a2
          \<and> describe_difference exact_ops ''was $1,010.00'' ''$1,012.50 now'' =
              (case float_of exact_ops (remove_commas t1) of
                 None \<Rightarrow> None
               | Some old_num \<Rightarrow>
                  (case float_of exact_ops (remove_commas t2) of
                     None \<Rightarrow> None
                   | Some new_num \<Rightarrow>
                       Some (if gt_zero exact_ops (fsub exact_ops new_num old_num) then Up
                             else if lt_zero exact_ops (fsub exact_ops new_num old_num) then Down
                             else Flat,
                             fsub exact_ops new_num old_num)))"
    by (rule t[THEN conjunct2, THEN conjunct1, rule_format, OF on])
  have po: "parse_number_from_value exact_ops ''was $1,010.00'' = Some 1010"
    by (simp add: parse_number_from_value_def run_defs exact_ops_def decimal_value_def)
  have pn: "parse_number_from_value exact_ops ''$1,012.50 now'' = Some (2025 / 2)"
    by (simp add: parse_number_from_value_def run_defs exact_ops_def decimal_value_def)
  have B: "describe_difference exact_ops ''was $1,010.00'' ''$1,012.50 now'' = Some (Up, 5 / 2)"
    unfolding describe_difference_def po pn by (simp add: exact_ops_def)
  have C: "describe_difference exact_ops ''$1,012.50 now'' ''was $1,010.00'' = Some (Down, - 5 / 2)"
    unfolding describe_difference_def po pn by (simp add: exact_ops_def)
  have D: "describe_difference exact_ops ''Operational'' ''$1,012.50 now'' = None"
    using u z by blast
  show ?thesis by (rule conjI[OF o conjI[OF n conjI[OF A conjI[OF B conjI[OF C conjI[OF z D]]]]]])
qed

section \<open>Persistence\<close>

lemma distinct_map_sort_key: "distinct (map f (sort_key f xs)) = distinct (map f xs)"
  by (induction xs) (simp_all add: distinct_insort_key)

lemma sort_key_fst_unique:
  fixes xs ys :: "(string \<times> 'v) list"
  assumes "distinct (map fst xs)" "distinct (map fst ys)" "set xs = set ys"
  shows "sort_key fst xs = sort_key fst ys"
proof (rule map_sorted_distinct_set_unique[where f = fst])
  have "inj_on fst (set xs)" using assms(1) by (simp add: distinct_map)
  then show "inj_on fst (set (sort_key fst xs) \<union> set (sort_key fst ys))"
    using assms(3) by simp
  show "sorted (map fst (sort_key fst xs))" by simp
  show "sorted (map fst (sort_key fst ys))" by simp
  show "distinct (map fst (sort_key fst xs))" using assms(1) by (simp add: distinct_map_sort_key)
  show "distinct (map fst (sort_key fst ys))" using assms(2) by (simp add: distinct_map_sort_key)
  show "set (sort_key fst xs) = set (sort_key fst ys)" using assms(3) by simp
qed

lemma sort_keys_alt: "sort_keys data = sort_key fst (map sort_entry data)"
  by (simp add: sort_keys_def)

lemma fst_sort_entry [simp]: "fst (sort_entry x) = fst x"
  by (cases x) (simp add: sort_entry_def)

lemma sort_entry_idem [simp]: "sort_entry (sort_entry x) = sort_entry x"
  by (cases x) (simp add: sort_entry_def sort_key_id_if_sorted)

lemma map_fst_sort_entry [simp]: "map fst (map sort_entry data) = map fst data"
  by (induction data) simp_all

lemma sort_keys_sorted: "sorted (map fst (sort_keys data))"
  by (simp add: sort_keys_alt)

lemma sort_keys_idem: "sort_keys (sort_keys data) = sort_keys data"
proof -
  let ?Y = "sort_key fst (map sort_entry data)"
  have "map sort_entry ?Y = ?Y"
  proof (rule map_idI)
    fix x assume "x \<in> set ?Y"
    then obtain y where "x = sort_entry y" by auto
    then show "sort_entry x = x" by simp
  qed
  moreover have "sort_key fst ?Y = ?Y" by (rule sort_key_id_if_sorted) simp
  ultimately show ?thesis by (simp add: sort_keys_alt)
qed

lemma fst_comp_sort_entry [simp]: "fst \<circ> sort_entry = fst"
  by (simp add: fun_eq_iff)

lemma is_dict_iff:
  "is_dict data \<longleftrightarrow> distinct (map fst data) \<and> (\<forall>(k, d)\<in>set data. distinct (map fst d))"
  by (simp add: is_dict_def list_all_iff)

lemma same_content_iff:
  "same_content a b \<longleftrightarrow>
     is_dict a \<and> is_dict b \<and> fst ` set a = fst ` set b
     \<and> (\<forall>(k, d)\<in>set a. \<exists>d'. map_of b k = Some d' \<and> set d = set d')"
  by (auto simp: same_content_def list_all_iff split: option.splits)

lemma is_dict_sort_keys:
  assumes "is_dict data"
  shows "is_dict (sort_keys data)"
  unfolding is_dict_iff
proof
  show "distinct (map fst (sort_keys data))"
    using assms by (simp add: sort_keys_alt distinct_map_sort_key is_dict_iff)
  show "\<forall>(k, d)\<in>set (sort_keys data). distinct (map fst d)"
  proof (intro ballI)
    fix x assume "x \<in> set (sort_keys data)"
    then obtain k d where kd: "(k, d) \<in> set data" "x = sort_entry (k, d)"
      by (auto simp: sort_keys_alt)
    then have "distinct (map fst d)" using assms unfolding is_dict_iff by auto
    then show "case x of (k, d) \<Rightarrow> distinct (map fst d)"
      using kd(2) by (simp add: sort_entry_def distinct_map_sort_key)
  qed
qed

lemma same_content_sort_keys:
  assumes "is_dict data"
  shows "same_content data (sort_keys data)"
  unfolding same_content_iff
proof (intro conjI ballI)
  show "is_dict data" by (rule assms)
  show "is_dict (sort_keys data)" using assms by (rule is_dict_sort_keys)
  show "fst ` set data = fst ` set (sort_keys data)"
    by (simp add: sort_keys_alt image_image)
  fix x assume x: "x \<in> set data"
  obtain k d where kd: "x = (k, d)" by (cases x)
  have "(k, sort_key fst d) \<in> set (sort_keys data)"
    using x kd by (force simp: sort_keys_alt sort_entry_def)
  moreover have "distinct (map fst (sort_keys data))"
    using is_dict_sort_keys[OF assms] by (simp add: is_dict_iff)
  ultimately have "map_of (sort_keys data) k = Some (sort_key fst d)"
    by (simp add: map_of_is_SomeI)
  then show "case x of (k, d) \<Rightarrow> \<exists>d'. map_of (sort_keys data) k = Some d' \<and> set d = set d'"
    using kd by simp
qed

lemma same_content_entries:
  assumes "same_content a b"
  shows "sort_entry ` set a = sort_entry ` set b"
proof -
  from assms have da: "is_dict a" and db: "is_dict b" and keys: "fst ` set a = fst ` set b"
    and c: "\<forall>(k, d)\<in>set a. \<exists>d'. map_of b k = Some d' \<and> set d = set d'"
    unfolding same_content_iff by blast+
  have step: "\<exists>d'. (k, d') \<in> set b \<and> map_of b k = Some d' \<and> sort_entry (k, d) = sort_entry (k, d')"
    if "(k, d) \<in> set a" for k d
  proof -
    from c that obtain d' where d': "map_of b k = Some d'" "set d = set d'" by blast
    then have m: "(k, d') \<in> set b" by (simp add: map_of_SomeD)
    have "distinct (map fst d)" using da that unfolding is_dict_iff by auto
    moreover have "distinct (map fst d')" using db m unfolding is_dict_iff by auto
    ultimately have "sort_key fst d = sort_key fst d'" using d'(2) by (rule sort_key_fst_unique)
    then show ?thesis using m d'(1) by (auto simp: sort_entry_def)
  qed
  show ?thesis
  proof (intro equalityI subsetI)
    fix y assume "y \<in> sort_entry ` set a"
    then obtain k d where "(k, d) \<in> set a" "y = sort_entry (k, d)" by auto
    with step[of k d] show "y \<in> sort_entry ` set b" by force
  next
    fix y assume "y \<in> sort_entry ` set b"
    then obtain k d' where b: "(k, d') \<in> set b" "y = sort_entry (k, d')" by auto
    then have "k \<in> fst ` set a" using keys by force
    then obtain d where a: "(k, d) \<in> set a" by auto
    from step[OF a] obtain d'' where "map_of b k = Some d''" "sort_entry (k, d) = sort_entry (k, d'')"
      by blast
    moreover have "map_of b k = Some d'"
      using b(1) db by (simp add: map_of_is_SomeI is_dict_iff)
    ultimately have "y = sort_entry (k, d)" using b(2) by simp
    then show "y \<in> sort_entry ` set a" using a by force
  qed
qed

lemma same_content_sort_keys_eq:
  assumes "same_content a b"
  shows "sort_keys a = sort_keys b"
  unfolding sort_keys_alt
proof (rule sort_key_fst_unique)
  show "distinct (map fst (map sort_entry a))"
    using assms by (simp add: same_content_iff is_dict_iff)
  show "distinct (map fst (map sort_entry b))"
    using assms by (simp add: same_content_iff is_dict_iff)
  show "set (map sort_entry a) = set (map sort_entry b)"
    using same_content_entries[OF assms] by simp
qed

lemma sort_keys_entries_sorted: "list_all (\<lambda>(k, d). sorted (map fst d)) (sort_keys data)"
  unfolding list_all_iff
proof
  fix x assume "x \<in> set (sort_keys data)"
  then obtain y where "x = sort_entry y" by (auto simp: sort_keys_alt)
  then show "case x of (k, d) \<Rightarrow> sorted (map fst d)"
    by (cases y) (simp add: sort_entry_def)
qed

lemma load_save:
  assumes "parse (render (sort_keys data)) = Some (sort_keys data)"
  shows "load_state parse (save_state render data) = sort_keys data"
  using assms by (simp add: load_state_def save_state_def)

text \<open>
  C5. \<open>save_state\<close> writes a document whose ids are in ascending order, as are the keys
  of each entry, and which has the content of the ledger. Two ledgers with the same
  content are written as the same bytes, whatever their order of insertion. When the
  parser reads back the document written for a ledger, saving, loading, saving,
  loading and saving again writes the bytes of the first save.
\<close>

theorem C5_persistence_deterministic:
  "(\<exists>written. save_state render data = Some (render written)
        \<and> sorted (map fst written) \<and> list_all (\<lambda>(k, d). sorted (map fst d)) written
        \<and> (is_dict data \<longrightarrow> same_content data written))
   \<and> (same_content data data' \<longrightarrow> save_state render data = save_state render data')
   \<and> (parse (render (sort_keys data)) = Some (sort_keys data) \<longrightarrow>
        save_state render
          (load_state parse (save_state render (load_state parse (save_state render data))))
        = save_state render data)"
proof (intro conjI impI)
  show "\<exists>written. save_state render data = Some (render written)
        \<and> sorted (map fst written) \<and> list_all (\<lambda>(k, d). sorted (map fst d)) written
        \<and> (is_dict data \<longrightarrow> same_content data written)"
    using sort_keys_sorted[of data] sort_keys_entries_sorted[of data] same_content_sort_keys[of data]
    by (intro exI[of _ "sort_keys data"]) (simp add: save_state_def)
next
  assume "same_content data data'"
  then have "sort_keys data = sort_keys data'" by (rule same_content_sort_keys_eq)
  then show "save_state render data = save_state render data'" by (simp add: save_state_def)
next
  assume a: "parse (render (sort_keys data)) = Some (sort_keys data)"
  have 1: "load_state parse (save_state render data) = sort_keys data"
    using a by (rule load_save)
  have 2: "save_state render (sort_keys data) = save_state render data"
    by (simp add: save_state_def sort_keys_idem)
  have 3: "load_state parse (save_state render (sort_keys data)) = sort_keys data"
    unfolding 2 by (rule 1)
  show "save_state render
          (load_state parse (save_state render (load_state parse (save_state render data))))
        = save_state render data"
    unfolding 1 3 by (rule 2)
qed

lemma demo_sorted: "sort_keys demo_unsorted = demo_ledger"
  by code_simp

lemma demo_same: "same_content demo_unsorted demo_ledger"
  by code_simp

theorem C5_persistence_deterministic_witness:
  "is_dict demo_unsorted \<and> same_content demo_unsorted demo_ledger
   \<and> demo_read_back (demo_render (sort_keys demo_unsorted)) = Some (sort_keys demo_unsorted)
   \<and> (\<exists>written. save_state demo_render demo_unsorted = Some (demo_render written)
         \<and> sorted (map fst written) \<and> same_content demo_unsorted written)
   \<and> save_state demo_render demo_unsorted = save_state demo_render demo_ledger
   \<and> save_state demo_render
        (load_state demo_read_back (save_state demo_render
           (load_state demo_read_back (save_state demo_render demo_unsorted))))
      = save_state demo_render demo_unsorted"
proof -
  note t = C5_persistence_deterministic[of demo_render demo_unsorted demo_ledger demo_read_back]
  have d: "is_dict demo_unsorted" using demo_same by (simp add: same_content_def)
  have r: "demo_read_back (demo_render (sort_keys demo_unsorted)) = Some (sort_keys demo_unsorted)"
    by (simp add: demo_sorted demo_read_back_def)
  from t obtain written where w: "save_state demo_render demo_unsorted = Some (demo_render written)"
    "sorted (map fst written)" "is_dict demo_unsorted \<longrightarrow> same_content demo_unsorted written"
    by blast
  have A: "\<exists>written. save_state demo_render demo_unsorted = Some (demo_render written)
         \<and> sorted (map fst written) \<and> same_content demo_unsorted written"
    using w d by (intro exI[of _ written]) simp
  have B: "save_state demo_render demo_unsorted = save_state demo_render demo_ledger"
    using t demo_same by blast
  have C: "save_state demo_render
        (load_state demo_read_back (save_state demo_render
           (load_state demo_read_back (save_state demo_render demo_unsorted))))
      = save_state demo_render demo_unsorted"
    using t r by blast
  show ?thesis by (rule conjI[OF d conjI[OF demo_same conjI[OF r conjI[OF A conjI[OF B C]]]]])
qed

end
